theory Spec2Isabelle
  imports Main "HOL-Library.Word"
begin

unbundle bit_operations_syntax

section \<open>Shared data model: cells as passage bitmasks\<close>

text \<open>
  Both programs define the same flags (genmaze.cpp lines 66-70, solmaze.cpp lines 107-111
  and 119). A cell is a machine integer whose bits say where a passage leads. The
  generator keeps cells in \<open>uint\<close> arrays (32 bit), the solver in \<open>short\<close> arrays
  (16 bit); the flags are polymorphic in the word length so that both use the same names.
\<close>

definition EMPTY :: "'a::len word" where "EMPTY = 0"
definition UP :: "'a::len word" where "UP = 1"
definition DOWN :: "'a::len word" where "DOWN = 2"
definition LEFT :: "'a::len word" where "LEFT = 4"
definition RIGHT :: "'a::len word" where "RIGHT = 8"
definition CHECKED :: "'a::len word" where "CHECKED = 32"

text \<open>Whitespace margin to the left of the maze (\<open>#define BUFFER 5\<close> in both files).\<close>

definition BUFFER :: nat where "BUFFER = 5"

section \<open>The generator (genmaze.cpp)\<close>

text \<open>
  The global variables \<open>set\<close>, \<open>previousRow\<close>, \<open>row\<close>, \<open>width\<close>, \<open>debugsets\<close> and
  \<open>debugrows\<close> become the fields of one record that every routine takes and returns.
  The arrays are lists; \<open>main\<close> allocates each with \<open>width\<close> elements and rejects
  \<open>width = 0\<close>, which is the predicate \<open>gen_ok\<close> below. Set labels and \<open>width\<close> are
  \<open>uint\<close> in the source and natural numbers here: a label is at most \<open>2 * width + 1\<close>
  (\<open>main\<close> starts from \<open>i + width + 1\<close>, the allocator passes only values that are in
  the row), so no label wraps around for a width below \<open>2^31\<close>.
\<close>

record gen =
  set_g :: "nat list"
  previousRow :: "32 word list"
  row :: "32 word list"
  width :: nat
  debugsets :: bool
  debugrows :: bool

definition gen_ok :: "gen \<Rightarrow> bool" where
  "gen_ok g \<longleftrightarrow>
     0 < width g \<and> length (set_g g) = width g \<and> length (row g) = width g \<and>
     length (previousRow g) = width g"

subsection \<open>unionSet\<close>

text \<open>
  \<^verbatim>\<open>for (uint i = 0; i < width; i++) { if (set[i] == b) set[i] = a; }\<close>
\<close>

definition unionSet :: "nat \<Rightarrow> nat \<Rightarrow> gen \<Rightarrow> gen" where
  "unionSet a b g =
     g\<lparr>set_g := fold (\<lambda>i s. if s ! i = b then s[i := a] else s) [0..<width g] (set_g g)\<rparr>"

subsection \<open>makeRow\<close>

text \<open>
  The search for the next set number (lines 213-225): the inner \<open>for\<close> loop looks for
  \<open>startingSetNum\<close> among \<open>set[0..width-1]\<close>; when it is there the number is incremented
  and the \<open>while\<close> loop scans again, otherwise the search is over.
\<close>

function nextSetNum :: "nat list \<Rightarrow> nat \<Rightarrow> nat \<Rightarrow> nat" where
  "nextSetNum s w startingSetNum =
     (if startingSetNum \<in> set (take w s) then nextSetNum s w (Suc startingSetNum)
      else startingSetNum)"
  by pat_completeness auto
termination
proof (relation "measure (\<lambda>(s, w, n). Suc (sum_list s) - n)")
  show "wf (measure (\<lambda>(s, w, n). Suc (sum_list s) - n))" by simp
next
  fix s :: "nat list" and w n :: nat
  assume "n \<in> set (take w s)"
  then have "n \<in> set s" by (rule in_set_takeD)
  then have "n \<le> sum_list s" by (simp add: member_le_sum_list)
  then show "((s, w, Suc n), (s, w, n)) \<in> measure (\<lambda>(s, w, n). Suc (sum_list s) - n)"
    by simp
qed

text \<open>
  First loop of \<open>makeRow\<close> (lines 207-229), one column: save the cell in \<open>previousRow\<close>;
  a cell that went down now goes up and keeps its set; any other cell is cleared and
  gets the next free set number. The loop state is the globals and the local
  \<open>startingSetNum\<close>, which is set to 1 once per call of \<open>makeRow\<close>.
\<close>

definition resetCell :: "nat \<Rightarrow> gen \<times> nat \<Rightarrow> gen \<times> nat" where
  "resetCell r = (\<lambda>(g, startingSetNum).
     let g1 = g\<lparr>previousRow := (previousRow g)[r := row g ! r]\<rparr> in
     if row g1 ! r AND DOWN \<noteq> 0 then (g1\<lparr>row := (row g1)[r := UP]\<rparr>, startingSetNum)
     else
       let n = nextSetNum (set_g g1) (width g1) startingSetNum in
       (g1\<lparr>set_g := (set_g g1)[r := n], row := (row g1)[r := EMPTY]\<rparr>, n))"

definition resetRow :: "gen \<Rightarrow> gen" where
  "resetRow g = fst (fold resetCell [0..<width g] (g, 1))"

text \<open>
  Second loop (lines 232-243), one column. \<open>rand()\<close> is called twice per column, also
  when its result is not used: \<open>rnd k\<close> is the value of the \<open>k\<close>-th call made by this
  call of \<open>makeRow\<close>, so column \<open>i\<close> reads \<open>rnd (2 * i)\<close> and \<open>rnd (2 * i + 1)\<close>.
\<close>

definition carveCell :: "(nat \<Rightarrow> nat) \<Rightarrow> bool \<Rightarrow> nat \<Rightarrow> gen \<Rightarrow> gen" where
  "carveCell rnd isLast i g =
     (let g1 =
        (if rnd (2 * i) mod 2 = 1 then
           (if 0 < i \<and> set_g g ! i \<noteq> set_g g ! (i - 1) then
              (let g' = g\<lparr>row := (row g)[i := row g ! i OR LEFT]\<rparr>;
                   g'' = g'\<lparr>row := (row g')[i - 1 := row g' ! (i - 1) OR RIGHT]\<rparr>
               in unionSet (set_g g'' ! i) (set_g g'' ! (i - 1)) g'')
            else g)
         else g)
      in if rnd (2 * i + 1) mod 2 = 1 \<and> \<not> isLast
         then g1\<lparr>row := (row g1)[i := row g1 ! i OR DOWN]\<rparr> else g1)"

definition carveRow :: "(nat \<Rightarrow> nat) \<Rightarrow> bool \<Rightarrow> gen \<Rightarrow> gen" where
  "carveRow rnd isLast g = fold (carveCell rnd isLast) [0..<width g] g"

text \<open>
  Third loop (lines 247-263, only when \<open>isLast\<close> is false), one column: a cell that
  does not go down looks for a cell of its set that does; when there is none it goes
  down itself.
\<close>

definition forceDownCell :: "nat \<Rightarrow> gen \<Rightarrow> gen" where
  "forceDownCell r g =
     (if row g ! r AND DOWN \<noteq> 0 then g
      else
        let mset = set_g g ! r;
            goDown = \<not> list_ex (\<lambda>i. set_g g ! i = mset \<and> row g ! i AND DOWN \<noteq> 0) [0..<width g]
        in if goDown then g\<lparr>row := (row g)[r := row g ! r OR DOWN]\<rparr> else g)"

definition forceDownRow :: "gen \<Rightarrow> gen" where
  "forceDownRow g = fold forceDownCell [0..<width g] g"

text \<open>
  Fourth loop (lines 267-275, only when \<open>isLast\<close> is true), one column \<open>r < width - 1\<close>.
  \<open>width - 1\<close> is unsigned in the source; \<open>main\<close> never calls \<open>makeRow\<close> with
  \<open>width = 0\<close>.
\<close>

definition closeCell :: "nat \<Rightarrow> gen \<Rightarrow> gen" where
  "closeCell r g =
     (if set_g g ! r = set_g g ! (r + 1) then g
      else
        let g' = g\<lparr>row := (row g)[r := row g ! r OR RIGHT]\<rparr>;
            g'' = g'\<lparr>row := (row g')[r + 1 := row g' ! (r + 1) OR LEFT]\<rparr>
        in unionSet (set_g g'' ! (r + 1)) (set_g g'' ! r) g'')"

definition closeRow :: "gen \<Rightarrow> gen" where
  "closeRow g = fold closeCell [0..<width g - 1] g"

definition makeRow :: "(nat \<Rightarrow> nat) \<Rightarrow> bool \<Rightarrow> gen \<Rightarrow> gen" where
  "makeRow rnd isLast g =
     (let g1 = resetRow g;
          g2 = carveRow rnd isLast g1;
          g3 = (if \<not> isLast then forceDownRow g2 else g2);
          g4 = (if isLast then closeRow g3 else g3)
      in g4)"

text \<open>The arrays as \<open>main\<close> creates them (lines 328-335).\<close>

definition initGen :: "nat \<Rightarrow> bool \<Rightarrow> bool \<Rightarrow> gen" where
  "initGen w ds dr =
     \<lparr>set_g = map (\<lambda>i. i + w + 1) [0..<w], previousRow = replicate w 0,
      row = replicate w 0, width = w, debugsets = ds, debugrows = dr\<rparr>"

subsection \<open>outputASCII\<close>

text \<open>
  \<open>printf("%*d", 2, v)\<close>: the decimal digits of \<open>v\<close>, padded with spaces on the left to
  two characters (longer numbers are printed in full).
\<close>

fun decimal :: "nat \<Rightarrow> string" where
  "decimal n =
     (if n < 10 then [char_of (48 + n)] else decimal (n div 10) @ [char_of (48 + n mod 10)])"

definition printf_2d :: "nat \<Rightarrow> string" where
  "printf_2d v = replicate (2 - length (decimal v)) CHR '' '' @ decimal v"

text \<open>
  The three lines \<open>outputASCII\<close> prints, each without its final newline. The top line
  (lines 145-156), the middle line (lines 159-172), and the bottom line (lines 178-185),
  printed only for the last row.
\<close>

definition topCell :: "bool \<Rightarrow> gen \<Rightarrow> nat \<Rightarrow> string" where
  "topCell isFirst g r =
     (if row g ! r AND UP \<noteq> 0 then ''  '' else ''__'') @
     (if previousRow g ! r AND RIGHT \<noteq> 0 \<and> \<not> (row g ! r AND RIGHT \<noteq> 0) then '' ''
      else (if \<not> isFirst \<and> \<not> (previousRow g ! r AND RIGHT \<noteq> 0) then ''|'' else ''_''))"

definition topLine :: "bool \<Rightarrow> gen \<Rightarrow> string" where
  "topLine isFirst g =
     replicate BUFFER CHR '' '' @ (if isFirst then '' '' else ''|'') @
     concat (map (topCell isFirst g) [0..<width g])"

definition middleCell :: "gen \<Rightarrow> nat \<Rightarrow> string" where
  "middleCell g r =
     (if debugsets g then printf_2d (set_g g ! r)
      else if debugrows g then printf_2d (unat (row g ! r))
      else ''  '') @
     (if row g ! r AND RIGHT \<noteq> 0 then '' '' else ''|'')"

definition middleLine :: "gen \<Rightarrow> string" where
  "middleLine g = replicate BUFFER CHR '' '' @ ''|'' @ concat (map (middleCell g) [0..<width g])"

definition bottomLine :: "gen \<Rightarrow> string" where
  "bottomLine g =
     replicate BUFFER CHR '' '' @
     concat (map (\<lambda>r. (if row g ! r AND LEFT \<noteq> 0 then ''_'' else ''|'') @ ''__'') [0..<width g]) @
     ''|''"

definition outputASCII :: "bool \<Rightarrow> bool \<Rightarrow> gen \<Rightarrow> string list" where
  "outputASCII isLast isFirst g =
     [topLine isFirst g, middleLine g] @ (if \<not> isLast then [] else [bottomLine g])"

section \<open>The solver (solmaze.cpp)\<close>

text \<open>
  The source indexes raw arrays, \<open>QString\<close>, \<open>QList\<close> and \<open>QVector\<close> without checking.
  In the model every access outside its container is a value of type \<open>fault\<close>, and a
  routine that makes one returns \<open>Inl\<close> of it instead of a result:
  \<^item> \<open>StringIndex\<close>: \<open>QString::operator[] const\<close> at or past \<open>size()\<close>;
  \<^item> \<open>ArrayIndex\<close>: a \<open>short\<close> array (\<open>new short[width]\<close>) outside \<open>0..width-1\<close>;
  \<^item> \<open>VectorIndex\<close>: \<open>QVector\<close>/\<open>QList\<close> \<open>operator[]\<close> outside \<open>0..size()-1\<close>.
  Text lines are byte strings, as \<open>readline\<close> returns them.
\<close>

datatype fault = StringIndex | ArrayIndex | VectorIndex

definition PATHMARKER :: char where "PATHMARKER = CHR ''X''"

record maze =
  list_m :: "string list"
  width_m :: "32 word"
  height_m :: "32 word"
  rows_m :: "16 word list list"
  destX :: "32 word"
  destY :: "32 word"

subsection \<open>convertRow\<close>

definition charAt :: "string \<Rightarrow> nat \<Rightarrow> fault + char" where
  "charAt s i = (if i < length s then Inr (s ! i) else Inl StringIndex)"

text \<open>
  One round of the loop of \<open>convertRow\<close> (lines 152-168), in the order of the source:
  \<open>row[i]\<close> from \<open>a[i]\<close>, the character of \<open>c\<close>, the character of \<open>b\<close>, the two
  writes. \<open>a\<close> is \<open>None\<close> for the \<open>NULL\<close> pointer. For \<open>i = 0\<close> the index \<open>i - 1\<close> of
  the last write is outside the array (\<open>i\<close> is unsigned). The indices \<open>i * 3 + BUFFER\<close>
  are computed without wrap-around: a line is shorter than \<open>2^31\<close> characters, so the
  first index past a line's end is a fault before any index wraps.
\<close>

definition convertCell ::
  "16 word list option \<Rightarrow> string \<Rightarrow> string \<Rightarrow> nat \<Rightarrow> fault + 16 word list \<Rightarrow> fault + 16 word list"
where
  "convertCell a b c i st =
     (case st of Inl e \<Rightarrow> Inl e
      | Inr row0 \<Rightarrow>
        (case (case a of None \<Rightarrow> Inr False
               | Some a' \<Rightarrow> if i < length a' then Inr (a' ! i AND DOWN \<noteq> 0) else Inl ArrayIndex) of
           Inl e \<Rightarrow> Inl e
         | Inr goesUp \<Rightarrow>
           let row1 = row0[i := (if goesUp then UP else EMPTY)] in
           (case charAt c (i * 3 + BUFFER + 1) of Inl e \<Rightarrow> Inl e
            | Inr cc \<Rightarrow>
              let row2 = (if cc \<noteq> CHR ''_'' then row1[i := row1 ! i OR DOWN] else row1) in
              (case charAt b (i * 3 + BUFFER) of Inl e \<Rightarrow> Inl e
               | Inr bc \<Rightarrow>
                 if \<not> (bc = CHR ''|'') then
                   (let row3 = row2[i := row2 ! i OR LEFT] in
                    if i = 0 then Inl ArrayIndex
                    else Inr (row3[i - 1 := row3 ! (i - 1) OR RIGHT]))
                 else Inr row2))))"

text \<open>
  \<open>new short[width]\<close> is not initialised; the loop writes \<open>row[i]\<close> before it reads
  it and reads \<open>row[i - 1]\<close> only after round \<open>i - 1\<close> wrote it, so the model starts from
  zeros.
\<close>

definition convertRow ::
  "16 word list option \<Rightarrow> string \<Rightarrow> string \<Rightarrow> nat \<Rightarrow> fault + 16 word list"
where
  "convertRow a b c w = fold (convertCell a b c) [0..<w] (Inr (replicate w 0))"

subsection \<open>read\<close>

text \<open>
  \<open>(m->list[1].length() - BUFFER) / 3\<close> is a division of \<open>int\<close>, which truncates towards
  zero, stored in a \<open>uint\<close>.
\<close>

definition widthOf :: "string \<Rightarrow> 32 word" where
  "widthOf l =
     (let d = int (length l) - int BUFFER
      in word_of_int (if d < 0 then - ((- d) div 3) else d div 3))"

text \<open>
  The body of the \<open>while\<close> loop of \<open>read\<close> (lines 179-199) for one line of input; the
  state is the maze and \<open>lineNumber\<close>. \<open>m->rows\<close> starts with two null entries and
  every \<open>insert\<close> puts the new row in front of them, at index \<open>lineNumber / 2 - 1\<close>, which
  is the number of rows parsed so far (so \<open>rows.size()\<close> is that number plus two and
  the branch that resizes is never taken). \<open>rows_m\<close> holds the parsed rows only: the
  null entries are left out, and a read of one is the same fault as a read past the end.
\<close>

definition readLine :: "string \<Rightarrow> fault + maze \<times> nat \<Rightarrow> fault + maze \<times> nat" where
  "readLine line st =
     (case st of Inl e \<Rightarrow> Inl e
      | Inr (m, lineNumber) \<Rightarrow>
        let m1 = m\<lparr>list_m := list_m m @ [line]\<rparr>;
            m2 = (if lineNumber = 1 then m1\<lparr>width_m := widthOf (list_m m1 ! 1)\<rparr> else m1);
            lineNumber' = lineNumber + 1
        in if lineNumber mod 2 \<noteq> 0 \<or> lineNumber' \<le> 2 then Inr (m2, lineNumber')
           else
             let lastRow = (if lineNumber' > 3 then Some (rows_m m2 ! (lineNumber' div 2 - 2))
                            else None)
             in (case convertRow lastRow (list_m m2 ! (lineNumber' - 2))
                        (list_m m2 ! (lineNumber' - 1)) (unat (width_m m2)) of
                   Inl e \<Rightarrow> Inl e
                 | Inr col \<Rightarrow> Inr (m2\<lparr>rows_m := rows_m m2 @ [col]\<rparr>, lineNumber')))"

text \<open>
  \<open>read\<close>: all lines of the input, then \<open>height = lineNumber / 2 - 1\<close> in \<open>uint\<close>.
\<close>

definition read :: "string list \<Rightarrow> maze \<Rightarrow> fault + maze" where
  "read input m =
     (case fold readLine input (Inr (m, 0)) of Inl e \<Rightarrow> Inl e
      | Inr (m', lineNumber) \<Rightarrow> Inr (m'\<lparr>height_m := word_of_nat (lineNumber div 2) - 1\<rparr>))"

subsection \<open>solutionCell\<close>

text \<open>
  \<open>s[i] = ch\<close> on a \<open>QString\<close> that is not const goes through \<open>QCharRef\<close>, whose
  assignment to an index at or past the end first extends the string with spaces.
\<close>

definition setChar :: "string \<Rightarrow> nat \<Rightarrow> char \<Rightarrow> string" where
  "setChar s i ch =
     (if i < length s then s[i := ch] else s @ replicate (i - length s) CHR '' '' @ [ch])"

definition solutionCell :: "maze \<Rightarrow> 32 word \<Rightarrow> 32 word \<Rightarrow> fault + maze" where
  "solutionCell m x y =
     (let ly = unat y * 2 + 1; lx = unat x * 3 + BUFFER + 1
      in if ly < length (list_m m)
         then Inr (m\<lparr>list_m :=
                (list_m m)[ly := setChar (setChar (list_m m ! ly) lx PATHMARKER) (lx + 1) PATHMARKER]\<rparr>)
         else Inl VectorIndex)"

subsection \<open>solveMaze\<close>

definition cellAt :: "maze \<Rightarrow> 32 word \<Rightarrow> 32 word \<Rightarrow> 16 word option" where
  "cellAt m x y =
     (if unat y < length (rows_m m) \<and> unat x < length (rows_m m ! unat y)
      then Some (rows_m m ! unat y ! unat x) else None)"

definition setChecked :: "maze \<Rightarrow> 32 word \<Rightarrow> 32 word \<Rightarrow> maze" where
  "setChecked m x y =
     m\<lparr>rows_m := (rows_m m)[unat y := (rows_m m ! unat y)[unat x :=
        rows_m m ! unat y ! unat x OR CHECKED]]\<rparr>"

text \<open>
  The recursion of \<open>solveMaze\<close> is not structural, so the model counts the depth of the
  recursion: \<open>solveMaze fuel\<close> is \<open>None\<close> when a chain of calls is longer than \<open>fuel\<close>.
  Otherwise it is \<open>Some (Inl e)\<close> when the search made the access \<open>e\<close> outside a
  container, or \<open>Some (Inr (found, m', entered))\<close>: the value returned, the maze as the
  call leaves it, and a record, which the source does not keep, of the cells whose
  \<open>CHECKED\<close> test the search passed, in the order it passed them.
\<close>

type_synonym result = "(fault + bool \<times> maze \<times> (32 word \<times> 32 word) list) option"

text \<open>
  One of the four guarded calls \<open>if (!foundEnd && (...)) foundEnd = solveMaze(...)\<close>:
  \<open>acc\<close> is the search so far, \<open>permitted\<close> the condition on \<open>from\<close> and the cell.
\<close>

definition tryDir :: "bool \<Rightarrow> (maze \<Rightarrow> result) \<Rightarrow> result \<Rightarrow> result" where
  "tryDir permitted call acc =
     (case acc of None \<Rightarrow> None
      | Some (Inl e) \<Rightarrow> Some (Inl e)
      | Some (Inr (foundEnd, m, entered)) \<Rightarrow>
          if \<not> foundEnd \<and> permitted then
            (case call m of None \<Rightarrow> None
             | Some (Inl e) \<Rightarrow> Some (Inl e)
             | Some (Inr (foundEnd', m', entered')) \<Rightarrow> Some (Inr (foundEnd', m', entered @ entered')))
          else Some (Inr (foundEnd, m, entered)))"

text \<open>\<open>if (foundEnd) solutionCell(m, x, y); return foundEnd;\<close>\<close>

definition markIfFound :: "32 word \<Rightarrow> 32 word \<Rightarrow> result \<Rightarrow> result" where
  "markIfFound x y acc =
     (case acc of None \<Rightarrow> None
      | Some (Inl e) \<Rightarrow> Some (Inl e)
      | Some (Inr (foundEnd, m, entered)) \<Rightarrow>
          if foundEnd then
            (case solutionCell m x y of Inl e \<Rightarrow> Some (Inl e)
             | Inr m' \<Rightarrow> Some (Inr (True, m', entered)))
          else Some (Inr (False, m, entered)))"

fun solveMaze :: "nat \<Rightarrow> maze \<Rightarrow> 32 word \<Rightarrow> 32 word \<Rightarrow> 32 word \<Rightarrow> result" where
  "solveMaze 0 m x y from = None"
| "solveMaze (Suc fuel) m x y from =
     (case cellAt m x y of None \<Rightarrow> Some (Inl ArrayIndex)
      | Some cell \<Rightarrow>
        if cell AND CHECKED \<noteq> 0 then Some (Inr (False, m, []))
        else
          let m1 = setChecked m x y in
          if x = destX m1 \<and> y = destY m1 then
            (case solutionCell m1 x y of Inl e \<Rightarrow> Some (Inl e)
             | Inr m2 \<Rightarrow> Some (Inr (True, m2, [(x, y)])))
          else
            let r0 = Some (Inr (False, m1, [(x, y)]));
                r1 = tryDir (from \<noteq> RIGHT \<and> cell AND LEFT \<noteq> 0)
                       (\<lambda>m'. solveMaze fuel m' (x - 1) y LEFT) r0;
                r2 = tryDir (from \<noteq> DOWN \<and> cell AND UP \<noteq> 0)
                       (\<lambda>m'. solveMaze fuel m' x (y - 1) UP) r1;
                r3 = tryDir (from \<noteq> UP \<and> cell AND DOWN \<noteq> 0)
                       (\<lambda>m'. solveMaze fuel m' x (y + 1) DOWN) r2;
                r4 = tryDir (from \<noteq> LEFT \<and> cell AND RIGHT \<noteq> 0)
                       (\<lambda>m'. solveMaze fuel m' (x + 1) y RIGHT) r3
            in markIfFound x y r4)"

subsection \<open>main\<close>

text \<open>The number of cells of the grid without the \<open>CHECKED\<close> flag.\<close>

definition uncheckedCells :: "maze \<Rightarrow> nat" where
  "uncheckedCells m =
     sum_list (map (\<lambda>r. length (filter (\<lambda>c. c AND CHECKED = 0) r)) (rows_m m))"

text \<open>
  What \<open>main\<close> itself does in a run: \<open>written\<close> is the lines that \<open>write\<close> prints,
  \<open>stderr\<close> the lines of the error stream, \<open>exit_code\<close> the value \<open>main\<close> returns.
  \<open>written\<close> is not the whole of the standard output: \<open>read\<close> gets its lines from
  \<open>readline(NULL)\<close>, and what that library call prints to the standard output while
  it reads (GNU readline echoes every line it reads, libedit prints nothing) comes
  before the lines of \<open>write\<close> and is not part of this record.
\<close>

record run =
  written :: "string list"
  stderr :: "string list"
  exit_code :: int

text \<open>
  \<open>main\<close> (lines 278-306). \<open>write\<close> prints every line of \<open>m->list\<close>; the value
  returned is \<open>isSolvable\<close>, the result of the search as an \<open>int\<close>. The search gets
  more fuel than the grid has unchecked cells, which is enough for every grid (lemma
  \<open>solveMaze_total\<close>). \<open>destX\<close> and \<open>destY\<close> are not initialised before \<open>read\<close>
  and not read before they are assigned.
\<close>

definition main :: "string list \<Rightarrow> (fault + run) option" where
  "main input =
     (case read input \<lparr>list_m = [], width_m = 0, height_m = 0, rows_m = [], destX = 0, destY = 0\<rparr> of
        Inl e \<Rightarrow> Some (Inl e)
      | Inr m0 \<Rightarrow>
        let m = m0\<lparr>destX := width_m m0 - 1, destY := 0\<rparr>;
            startX = 0;
            startY = height_m m
        in (case solveMaze (Suc (uncheckedCells m)) m startX startY EMPTY of
              None \<Rightarrow> None
            | Some (Inl e) \<Rightarrow> Some (Inl e)
            | Some (Inr (foundEnd, m', entered)) \<Rightarrow>
                let isSolvable = (if foundEnd then 1 else 0)
                in Some (Inr (if isSolvable \<noteq> 0
                  then \<lparr>written = list_m m', stderr = [], exit_code = isSolvable\<rparr>
                  else \<lparr>written = [], stderr = [''No path found through maze.''],
                        exit_code = isSolvable\<rparr>))))"

section \<open>Predicates used to state the properties\<close>

text \<open>
  Horizontal symmetry of a row of \<open>w\<close> cells: a cell goes left exactly when its left
  neighbour goes right, the first cell does not go left and the last cell does not go
  right.
\<close>

definition hsym :: "nat \<Rightarrow> 32 word list \<Rightarrow> bool" where
  "hsym w rw \<longleftrightarrow>
     (\<forall>i\<in>{1..<w}. (rw ! i AND LEFT \<noteq> 0) = (rw ! (i - 1) AND RIGHT \<noteq> 0)) \<and>
     rw ! 0 AND LEFT = 0 \<and> rw ! (w - 1) AND RIGHT = 0"


text \<open>
  A state in which no set label is lost when the first loop of \<open>makeRow\<close> replaces
  it: a column that does not go down either shares its label with a column that goes
  down, or has a label above \<open>width\<close>. The arrays that \<open>main\<close> creates are in this
  state, and so is every row that \<open>makeRow\<close> leaves when it is not the last one
  (lemmas \<open>anchored_initGen\<close> and \<open>anchored_makeRow\<close>).
\<close>

definition anchored :: "gen \<Rightarrow> bool" where
  "anchored g \<longleftrightarrow>
     (\<forall>k\<in>{0..<width g}. row g ! k AND DOWN = 0 \<longrightarrow>
        width g < set_g g ! k \<or>
        (\<exists>j\<in>{0..<width g}. set_g g ! j = set_g g ! k \<and> row g ! j AND DOWN \<noteq> 0))"

text \<open>
  What \<open>convertRow\<close> reads for column \<open>i\<close>. \<open>goesUp\<close>: the cell of the previous row
  goes down. \<open>readable\<close>: every access of the loop's round \<open>i\<close> is inside its
  container, which for column 0 needs the separator \<open>|\<close> (any other character makes the
  round write \<open>row[i - 1]\<close>). \<open>parsedCell\<close>: the flags the round gives to cell \<open>i\<close>
  itself; \<open>RIGHT\<close> is added by the next round.
\<close>

definition goesUp :: "16 word list option \<Rightarrow> nat \<Rightarrow> bool" where
  "goesUp a i = (case a of None \<Rightarrow> False | Some a' \<Rightarrow> a' ! i AND DOWN \<noteq> 0)"

definition readable :: "16 word list option \<Rightarrow> string \<Rightarrow> string \<Rightarrow> nat \<Rightarrow> bool" where
  "readable a b c i \<longleftrightarrow>
     (case a of None \<Rightarrow> True | Some a' \<Rightarrow> i < length a') \<and>
     i * 3 + BUFFER + 1 < length c \<and> i * 3 + BUFFER < length b \<and>
     (i = 0 \<longrightarrow> b ! BUFFER = CHR ''|'')"

definition parsedCell :: "16 word list option \<Rightarrow> string \<Rightarrow> string \<Rightarrow> nat \<Rightarrow> 16 word" where
  "parsedCell a b c i =
     ((if goesUp a i then UP else EMPTY) OR
      (if c ! (i * 3 + BUFFER + 1) \<noteq> CHR ''_'' then DOWN else 0)) OR
     (if b ! (i * 3 + BUFFER) \<noteq> CHR ''|'' then LEFT else 0)"

text \<open>
  The search. \<open>isChecked m (x, y)\<close>: the cell is in the grid and has the \<open>CHECKED\<close>
  flag. \<open>searched m m' entered\<close> relates the maze before and after a search (or a part
  of one) that entered the cells \<open>entered\<close>: the grid keeps its shape and its
  destination, every entered cell was not flagged before and is flagged after, no cell
  is entered twice, no flag is cleared, and the number of unflagged cells went down by
  the number of cells entered. \<open>resultOk\<close> and \<open>resultWithin\<close> say of the result of
  such a part that its maze is so related to \<open>m\<close>, and that the search came back with
  fewer than \<open>n\<close> unflagged cells.
\<close>

definition isChecked :: "maze \<Rightarrow> 32 word \<times> 32 word \<Rightarrow> bool" where
  "isChecked m p =
     (case cellAt m (fst p) (snd p) of None \<Rightarrow> False | Some c \<Rightarrow> c AND CHECKED \<noteq> 0)"

definition searched :: "maze \<Rightarrow> maze \<Rightarrow> (32 word \<times> 32 word) list \<Rightarrow> bool" where
  "searched m m' entered \<longleftrightarrow>
     map length (rows_m m') = map length (rows_m m) \<and>
     destX m' = destX m \<and> destY m' = destY m \<and>
     uncheckedCells m' + length entered = uncheckedCells m \<and>
     (\<forall>p. isChecked m p \<longrightarrow> isChecked m' p) \<and>
     distinct entered \<and> (\<forall>p\<in>set entered. \<not> isChecked m p \<and> isChecked m' p)"

definition resultOk :: "maze \<Rightarrow> result \<Rightarrow> bool" where
  "resultOk m r \<longleftrightarrow>
     (\<forall>found m' entered. r = Some (Inr (found, m', entered)) \<longrightarrow> searched m m' entered)"

definition resultWithin :: "nat \<Rightarrow> result \<Rightarrow> bool" where
  "resultWithin n r \<longleftrightarrow>
     r \<noteq> None \<and>
     (\<forall>found m' entered. r = Some (Inr (found, m', entered)) \<longrightarrow> uncheckedCells m' < n)"

text \<open>
  The recursive case in the words of the specification: the directions in the fixed
  order LEFT, UP, DOWN, RIGHT, each tried when it is not the reverse of the direction
  just travelled and the cell has the passage, stopping at the first call that
  succeeds; \<open>search\<close> stands for the recursive call. \<open>searchCell_spec\<close> is the whole
  step for a cell that has just been flagged: the destination is marked and succeeds
  at once, any other cell tries its neighbours and is marked when one of them
  succeeds. \<open>marked\<close>: the two interior characters of the cell in the text are the path
  marker.
\<close>

datatype direction = GoLeft | GoUp | GoDown | GoRight

definition flagOf :: "direction \<Rightarrow> 'a::len word" where
  "flagOf d = (case d of GoLeft \<Rightarrow> LEFT | GoUp \<Rightarrow> UP | GoDown \<Rightarrow> DOWN | GoRight \<Rightarrow> RIGHT)"

definition reverseOf :: "direction \<Rightarrow> direction" where
  "reverseOf d = (case d of GoLeft \<Rightarrow> GoRight | GoUp \<Rightarrow> GoDown | GoDown \<Rightarrow> GoUp | GoRight \<Rightarrow> GoLeft)"

definition neighbour :: "32 word \<Rightarrow> 32 word \<Rightarrow> direction \<Rightarrow> 32 word \<times> 32 word" where
  "neighbour x y d =
     (case d of GoLeft \<Rightarrow> (x - 1, y) | GoUp \<Rightarrow> (x, y - 1) | GoDown \<Rightarrow> (x, y + 1)
      | GoRight \<Rightarrow> (x + 1, y))"

fun tryInOrder_spec ::
  "(maze \<Rightarrow> 32 word \<Rightarrow> 32 word \<Rightarrow> 32 word \<Rightarrow> result) \<Rightarrow> 16 word \<Rightarrow> 32 word \<Rightarrow>
   32 word \<Rightarrow> 32 word \<Rightarrow> direction list \<Rightarrow> maze \<Rightarrow> (32 word \<times> 32 word) list \<Rightarrow> result"
where
  "tryInOrder_spec search cell from x y [] m entered = Some (Inr (False, m, entered))"
| "tryInOrder_spec search cell from x y (d # ds) m entered =
     (if from \<noteq> flagOf (reverseOf d) \<and> cell AND flagOf d \<noteq> 0 then
        (case search m (fst (neighbour x y d)) (snd (neighbour x y d)) (flagOf d) of
           None \<Rightarrow> None
         | Some (Inl e) \<Rightarrow> Some (Inl e)
         | Some (Inr (found, m', entered')) \<Rightarrow>
             if found then Some (Inr (True, m', entered @ entered'))
             else tryInOrder_spec search cell from x y ds m' (entered @ entered'))
      else tryInOrder_spec search cell from x y ds m entered)"

definition searchCell_spec ::
  "(maze \<Rightarrow> 32 word \<Rightarrow> 32 word \<Rightarrow> 32 word \<Rightarrow> result) \<Rightarrow> maze \<Rightarrow> 16 word \<Rightarrow> 32 word \<Rightarrow>
   32 word \<Rightarrow> 32 word \<Rightarrow> result"
where
  "searchCell_spec search m cell x y from =
     (if x = destX m \<and> y = destY m then
        (case solutionCell m x y of Inl e \<Rightarrow> Some (Inl e)
         | Inr m' \<Rightarrow> Some (Inr (True, m', [(x, y)])))
      else
        (case tryInOrder_spec search cell from x y [GoLeft, GoUp, GoDown, GoRight] m [(x, y)] of
           None \<Rightarrow> None
         | Some (Inl e) \<Rightarrow> Some (Inl e)
         | Some (Inr (found, m', entered)) \<Rightarrow>
             if found then
               (case solutionCell m' x y of Inl e \<Rightarrow> Some (Inl e)
                | Inr m'' \<Rightarrow> Some (Inr (True, m'', entered)))
             else Some (Inr (False, m', entered))))"

definition marked :: "maze \<Rightarrow> 32 word \<Rightarrow> 32 word \<Rightarrow> bool" where
  "marked m x y \<longleftrightarrow>
     unat y * 2 + 1 < length (list_m m) \<and>
     unat x * 3 + BUFFER + 2 < length (list_m m ! (unat y * 2 + 1)) \<and>
     list_m m ! (unat y * 2 + 1) ! (unat x * 3 + BUFFER + 1) = PATHMARKER \<and>
     list_m m ! (unat y * 2 + 1) ! (unat x * 3 + BUFFER + 2) = PATHMARKER"

section \<open>Generator: the ruled top line\<close>

lemma concat_map_upt_nth:
  assumes "\<And>i. i < n \<Longrightarrow> length (f i) = k" and "r < n" and "j < k"
  shows "concat (map f [0..<n]) ! (k * r + j) = f r ! j"
  using assms
proof (induction n)
  case 0
  then show ?case by simp
next
  case (Suc n)
  have len: "length (concat (map f [0..<n])) = k * n"
    using Suc.prems(1) by (induction n) simp_all
  show ?case
  proof (cases "r < n")
    case True
    then have "k * r + j < k * n"
      using Suc.prems(3)
      by (metis Suc_leI add.commute mult_Suc_right mult_le_mono2 nat_add_left_cancel_less
          order_less_le_trans)
    with Suc True len show ?thesis by (simp add: nth_append)
  next
    case False
    with Suc.prems(2) have "r = n" by simp
    with len show ?thesis by (simp add: nth_append)
  qed
qed

lemma topCell_length: "length (topCell isFirst g r) = 3"
  by (simp add: topCell_def)

lemma topLine_cell:
  assumes "r < width g" and "j < 3"
  shows "topLine isFirst g ! (BUFFER + 1 + 3 * r + j) = topCell isFirst g r ! j"
proof -
  have "concat (map (topCell isFirst g) [0..<width g]) ! (3 * r + j) = topCell isFirst g r ! j"
    by (rule concat_map_upt_nth) (simp_all add: topCell_length assms)
  moreover have "topLine isFirst g ! (BUFFER + 1 + 3 * r + j) =
      concat (map (topCell isFirst g) [0..<width g]) ! (3 * r + j)"
    by (simp add: topLine_def BUFFER_def nth_append)
  ultimately show ?thesis by simp
qed

text \<open>
  Claim C3, as the specification states it, gives an underscore for every boundary
  character that is not a space. It fails for a row that is not the first one, below a
  cell without \<open>RIGHT\<close>: the source prints the vertical bar there, the wall between
  the two cells of the row above continued downwards.
\<close>

theorem topLine_boundary_counterexample:
  "\<not> (previousRow (initGen 1 False False) ! 0 AND RIGHT \<noteq> 0 \<and>
      row (initGen 1 False False) ! 0 AND RIGHT = 0) \<and>
   hd (outputASCII False False (initGen 1 False False)) = ''     |__|'' \<and>
   hd (outputASCII False False (initGen 1 False False)) ! (BUFFER + 1 + 3 * 0 + 2) \<noteq> CHR ''_''"
  by code_simp

text \<open>
  Claim C3, amended: in the top line that \<open>outputASCII\<close> prints for a row, the
  boundary character of column \<open>r\<close> (the third character of the column, after the
  margin and the first character) is a space when the cell of the previous row has
  \<open>RIGHT\<close> and the cell of this row does not; otherwise it is a vertical bar when the
  row is not the first one and the cell of the previous row lacks \<open>RIGHT\<close>; otherwise
  it is an underscore.
\<close>

theorem topLine_boundary:
  assumes "r < width g"
  shows "hd (outputASCII isLast isFirst g) ! (BUFFER + 1 + 3 * r + 2) =
     (if previousRow g ! r AND RIGHT \<noteq> 0 \<and> row g ! r AND RIGHT = 0 then CHR '' ''
      else if \<not> isFirst \<and> previousRow g ! r AND RIGHT = 0 then CHR ''|''
      else CHR ''_'')"
  using topLine_cell [OF assms, of 2 isFirst]
  by (simp add: outputASCII_def topCell_def)

theorem topLine_boundary_witness:
  "(1::nat) < width (makeRow (\<lambda>k. 0) True (makeRow (\<lambda>k. k) False (initGen 3 False False))) \<and>
   outputASCII True False (makeRow (\<lambda>k. 0) True (makeRow (\<lambda>k. k) False (initGen 3 False False)))
     = [''     |  |  |  |'', ''     |        |'', ''     |________|''] \<and>
   hd (outputASCII True False (makeRow (\<lambda>k. 0) True (makeRow (\<lambda>k. k) False (initGen 3 False False))))
     ! (BUFFER + 1 + 3 * 1 + 2) = CHR ''|''"
proof -
  let ?g = "makeRow (\<lambda>k. 0) True (makeRow (\<lambda>k. k) False (initGen 3 False False))"
  have w: "1 < width ?g" by code_simp
  have p: "previousRow ?g ! 1 AND RIGHT = 0" by code_simp
  have o: "outputASCII True False ?g = [''     |  |  |  |'', ''     |        |'', ''     |________|'']"
    by code_simp
  show ?thesis
    using w o p topLine_boundary [OF w, of True False] by simp
qed

section \<open>Generator: flags and sets\<close>

lemma or_and_other:
  fixes x f g :: "'a::len word"
  assumes "f AND g = 0"
  shows "(x OR f) AND g = x AND g"
  by (simp add: bit.conj_disj_distrib2 assms)

lemma or_and_same:
  fixes x f :: "'a::len word"
  assumes "f \<noteq> 0"
  shows "(x OR f) AND f \<noteq> 0"
  using assms by (simp add: word_ao_absorbs)

lemma flags_disjoint32:
  "(DOWN :: 32 word) AND LEFT = 0" "(DOWN :: 32 word) AND RIGHT = 0" "(DOWN :: 32 word) AND UP = 0"
  "(LEFT :: 32 word) AND DOWN = 0" "(LEFT :: 32 word) AND RIGHT = 0" "(LEFT :: 32 word) AND UP = 0"
  "(RIGHT :: 32 word) AND DOWN = 0" "(RIGHT :: 32 word) AND LEFT = 0" "(RIGHT :: 32 word) AND UP = 0"
  "(UP :: 32 word) AND DOWN = 0" "(UP :: 32 word) AND LEFT = 0" "(UP :: 32 word) AND RIGHT = 0"
  "(EMPTY :: 32 word) AND x = 0"
  by (simp_all add: DOWN_def LEFT_def RIGHT_def UP_def EMPTY_def)

lemma flags_nonzero32:
  "(DOWN :: 32 word) \<noteq> 0" "(LEFT :: 32 word) \<noteq> 0" "(RIGHT :: 32 word) \<noteq> 0" "(UP :: 32 word) \<noteq> 0"
  by (simp_all add: DOWN_def LEFT_def RIGHT_def UP_def)

lemma flags_disjoint16:
  "(DOWN :: 16 word) AND LEFT = 0" "(DOWN :: 16 word) AND RIGHT = 0" "(DOWN :: 16 word) AND UP = 0"
  "(LEFT :: 16 word) AND DOWN = 0" "(LEFT :: 16 word) AND RIGHT = 0" "(LEFT :: 16 word) AND UP = 0"
  "(RIGHT :: 16 word) AND DOWN = 0" "(RIGHT :: 16 word) AND LEFT = 0" "(RIGHT :: 16 word) AND UP = 0"
  "(UP :: 16 word) AND DOWN = 0" "(UP :: 16 word) AND LEFT = 0" "(UP :: 16 word) AND RIGHT = 0"
  "(EMPTY :: 16 word) AND x = 0"
  by (simp_all add: DOWN_def LEFT_def RIGHT_def UP_def EMPTY_def)

lemma flags_nonzero16:
  "(DOWN :: 16 word) \<noteq> 0" "(LEFT :: 16 word) \<noteq> 0" "(RIGHT :: 16 word) \<noteq> 0"
  "(UP :: 16 word) \<noteq> 0" "(CHECKED :: 16 word) \<noteq> 0"
  by (simp_all add: DOWN_def LEFT_def RIGHT_def UP_def CHECKED_def)

subsection \<open>unionSet\<close>

lemma union_loop:
  "n \<le> length s \<Longrightarrow>
   length (fold (\<lambda>i s. if s ! i = b then s[i := a] else s) [0..<n] s) = length s \<and>
   (\<forall>i<length s. fold (\<lambda>i s. if s ! i = b then s[i := a] else s) [0..<n] s ! i =
      (if i < n \<and> s ! i = b then a else s ! i))"
proof (induction n)
  case 0
  then show ?case by simp
next
  case (Suc n)
  then show ?case
    by (auto simp add: nth_list_update less_Suc_eq)
qed

lemma set_g_unionSet:
  "length (set_g g) = width g \<Longrightarrow>
   set_g (unionSet a b g) = map (\<lambda>x. if x = b then a else x) (set_g g)"
  by (rule nth_equalityI) (simp_all add: unionSet_def union_loop)

lemma unionSet_frame [simp]:
  "row (unionSet a b g) = row g" "previousRow (unionSet a b g) = previousRow g"
  "width (unionSet a b g) = width g" "debugsets (unionSet a b g) = debugsets g"
  "debugrows (unionSet a b g) = debugrows g"
  by (simp_all add: unionSet_def)

lemma gen_ok_unionSet: "gen_ok g \<Longrightarrow> gen_ok (unionSet a b g)"
  by (simp add: gen_ok_def set_g_unionSet)


subsection \<open>The search for a free set number\<close>

declare nextSetNum.simps [simp del]

lemma nextSetNum_ge: "n \<le> nextSetNum s w n"
proof (induction s w n rule: nextSetNum.induct)
  case (1 s w n)
  show ?case
  proof (cases "n \<in> set (take w s)")
    case True
    with 1 have "Suc n \<le> nextSetNum s w (Suc n)" by simp
    with True show ?thesis by (simp add: nextSetNum.simps [of s w n])
  next
    case False
    then show ?thesis by (simp add: nextSetNum.simps [of s w n])
  qed
qed

lemma nextSetNum_free: "nextSetNum s w n \<notin> set (take w s)"
proof (induction s w n rule: nextSetNum.induct)
  case (1 s w n)
  show ?case
  proof (cases "n \<in> set (take w s)")
    case True
    with 1 show ?thesis by (simp add: nextSetNum.simps [of s w n])
  next
    case False
    then show ?thesis by (simp add: nextSetNum.simps [of s w n])
  qed
qed

lemma nextSetNum_passed: "n \<le> k \<Longrightarrow> k < nextSetNum s w n \<Longrightarrow> k \<in> set (take w s)"
proof (induction s w n rule: nextSetNum.induct)
  case (1 s w n)
  show ?case
  proof (cases "n \<in> set (take w s)")
    case True
    show ?thesis
    proof (cases "k = n")
      case True
      with \<open>n \<in> set (take w s)\<close> show ?thesis by simp
    next
      case False
      with "1.prems" have "Suc n \<le> k" by simp
      moreover from "1.prems" True have "k < nextSetNum s w (Suc n)"
        by (simp add: nextSetNum.simps [of s w n])
      ultimately show ?thesis using "1.IH" True by simp
    qed
  next
    case False
    with "1.prems" show ?thesis by (simp add: nextSetNum.simps [of s w n])
  qed
qed

subsection \<open>The first loop of makeRow\<close>

lemma resetCell_frame:
  "width (fst (resetCell r st)) = width (fst st)"
  "length (row (fst (resetCell r st))) = length (row (fst st))"
  "length (set_g (fst (resetCell r st))) = length (set_g (fst st))"
  "length (previousRow (fst (resetCell r st))) = length (previousRow (fst st))"
  "debugsets (fst (resetCell r st)) = debugsets (fst st)"
  "debugrows (fst (resetCell r st)) = debugrows (fst st)"
  by (simp_all add: resetCell_def Let_def split: prod.splits)

lemma reset_loop_frame:
  "width (fst (fold resetCell [0..<k] st)) = width (fst st) \<and>
   length (row (fst (fold resetCell [0..<k] st))) = length (row (fst st)) \<and>
   length (set_g (fst (fold resetCell [0..<k] st))) = length (set_g (fst st)) \<and>
   length (previousRow (fst (fold resetCell [0..<k] st))) = length (previousRow (fst st))"
  by (induction k) (simp_all add: resetCell_frame)

lemma reset_loop_rows:
  assumes "k \<le> length (row g)"
  shows "(\<forall>i<k. row (fst (fold resetCell [0..<k] (g, s0))) ! i \<in> {UP, EMPTY}) \<and>
         (\<forall>i\<ge>k. row (fst (fold resetCell [0..<k] (g, s0))) ! i = row g ! i)"
  using assms
proof (induction k)
  case 0
  then show ?case by simp
next
  case (Suc k)
  let ?st = "fold resetCell [0..<k] (g, s0)"
  have len: "length (row (fst ?st)) = length (row g)"
    using reset_loop_frame [of k "(g, s0)"] by simp
  have IH: "(\<forall>i<k. row (fst ?st) ! i \<in> {UP, EMPTY}) \<and> (\<forall>i\<ge>k. row (fst ?st) ! i = row g ! i)"
    using Suc by simp
  have k: "k < length (row (fst ?st))" using Suc.prems len by simp
  have step: "row (fst (resetCell k ?st)) =
      (row (fst ?st))[k := (if row (fst ?st) ! k AND DOWN \<noteq> 0 then UP else EMPTY)]"
    by (simp add: resetCell_def Let_def split: prod.splits)
  show ?case
    using IH k by (auto simp add: step nth_list_update less_Suc_eq)
qed


lemma hsym_plain:
  assumes "\<forall>i<w. rw ! i \<in> {UP, EMPTY}" and "0 < w"
  shows "hsym w rw"
proof -
  have "rw ! i AND LEFT = 0 \<and> rw ! i AND RIGHT = 0" if "i < w" for i
    using assms(1) that flags_disjoint32 by (auto simp add: EMPTY_def)
  then show ?thesis using assms(2) by (auto simp add: hsym_def)
qed

lemma hsym_link:
  assumes h: "hsym w rw" and i: "0 < i" "i < w"
    and a: "rw' ! i = rw ! i OR LEFT" and b: "rw' ! (i - 1) = rw ! (i - 1) OR RIGHT"
    and c: "\<And>j. j \<noteq> i \<Longrightarrow> j \<noteq> i - 1 \<Longrightarrow> rw' ! j = rw ! j"
  shows "hsym w rw'"
proof -
  have L: "(rw' ! j AND LEFT \<noteq> 0) = (j = i \<or> rw ! j AND LEFT \<noteq> 0)" for j
  proof (cases "j = i")
    case True
    then show ?thesis by (simp add: a or_and_same flags_nonzero32)
  next
    case False
    then show ?thesis
      using b c [of j]
      by (cases "j = i - 1") (simp_all add: or_and_other flags_disjoint32)
  qed
  have R: "(rw' ! j AND RIGHT \<noteq> 0) = (j = i - 1 \<or> rw ! j AND RIGHT \<noteq> 0)" for j
  proof (cases "j = i - 1")
    case True
    then show ?thesis using b by (simp add: or_and_same flags_nonzero32)
  next
    case False
    then show ?thesis
      using a c [of j]
      by (cases "j = i") (simp_all add: or_and_other flags_disjoint32)
  qed
  have "(rw' ! j AND LEFT \<noteq> 0) = (rw' ! (j - 1) AND RIGHT \<noteq> 0)" if "j \<in> {1..<w}" for j
  proof -
    have "(rw ! j AND LEFT \<noteq> 0) = (rw ! (j - 1) AND RIGHT \<noteq> 0)"
      using h that by (simp add: hsym_def)
    moreover have "(j = i) = (j - 1 = i - 1)" using that i by auto
    ultimately show ?thesis by (simp only: L R)
  qed
  moreover have "rw' ! 0 AND LEFT = 0"
    using L [of 0] h i by (simp add: hsym_def)
  moreover have "rw' ! (w - 1) AND RIGHT = 0"
    using R [of "w - 1"] h i by (auto simp add: hsym_def)
  ultimately show ?thesis by (simp add: hsym_def)
qed

lemma hsym_down:
  assumes "hsym w rw"
  shows "hsym w (rw[r := rw ! r OR DOWN])"
proof -
  have "rw[r := rw ! r OR DOWN] ! j AND LEFT = rw ! j AND LEFT \<and>
        rw[r := rw ! r OR DOWN] ! j AND RIGHT = rw ! j AND RIGHT" for j
    by (cases "r < length rw"; cases "j = r")
       (simp_all add: or_and_other flags_disjoint32 list_update_beyond)
  with assms show ?thesis by (simp add: hsym_def)
qed


lemma carveCell_sym:
  assumes "gen_ok g" and "hsym (width g) (row g)" and "i < width g"
  shows "gen_ok (carveCell rnd isLast i g) \<and> width (carveCell rnd isLast i g) = width g \<and>
         hsym (width g) (row (carveCell rnd isLast i g))"
proof -
  let ?rw = "(row g)[i := row g ! i OR LEFT]"
  let ?rw' = "?rw[i - 1 := ?rw ! (i - 1) OR RIGHT]"
  have len: "length (row g) = width g" using assms(1) by (simp add: gen_ok_def)
  have link: "hsym (width g) ?rw'" if "0 < i"
  proof (rule hsym_link [OF assms(2) that assms(3)])
    show "?rw' ! i = row g ! i OR LEFT" using that assms(3) len by simp
    show "?rw' ! (i - 1) = row g ! (i - 1) OR RIGHT" using that assms(3) len by simp
    show "?rw' ! j = row g ! j" if "j \<noteq> i" "j \<noteq> i - 1" for j using that by simp
  qed
  let ?g1 = "if rnd (2 * i) mod 2 = 1 \<and> 0 < i \<and> set_g g ! i \<noteq> set_g g ! (i - 1)
             then unionSet (set_g g ! i) (set_g g ! (i - 1)) (g\<lparr>row := ?rw'\<rparr>) else g"
  have g1: "gen_ok ?g1 \<and> width ?g1 = width g \<and> hsym (width g) (row ?g1)"
    using assms link by (auto simp add: gen_ok_def set_g_unionSet)
  have "carveCell rnd isLast i g =
      (if rnd (2 * i + 1) mod 2 = 1 \<and> \<not> isLast
       then ?g1\<lparr>row := (row ?g1)[i := row ?g1 ! i OR DOWN]\<rparr> else ?g1)"
    by (simp add: carveCell_def Let_def)
  moreover have "gen_ok (?g1\<lparr>row := (row ?g1)[i := row ?g1 ! i OR DOWN]\<rparr>)"
    using g1 by (simp add: gen_ok_def)
  moreover have "hsym (width g) ((row ?g1)[i := row ?g1 ! i OR DOWN])"
    using g1 by (simp add: hsym_down)
  ultimately show ?thesis
    using g1 by (simp del: One_nat_def)
qed

lemma forceDownCell_sym:
  assumes "gen_ok g" and "hsym (width g) (row g)"
  shows "gen_ok (forceDownCell r g) \<and> width (forceDownCell r g) = width g \<and>
         hsym (width g) (row (forceDownCell r g))"
  using assms by (auto simp add: forceDownCell_def Let_def gen_ok_def hsym_down)

lemma closeCell_sym:
  assumes "gen_ok g" and "hsym (width g) (row g)" and "r + 1 < width g"
  shows "gen_ok (closeCell r g) \<and> width (closeCell r g) = width g \<and>
         hsym (width g) (row (closeCell r g))"
proof -
  let ?rw = "(row g)[r := row g ! r OR RIGHT]"
  let ?rw' = "?rw[r + 1 := ?rw ! (r + 1) OR LEFT]"
  have len: "length (row g) = width g" using assms(1) by (simp add: gen_ok_def)
  have link: "hsym (width g) ?rw'"
  proof (rule hsym_link [OF assms(2) _ assms(3)])
    show "0 < r + 1" by simp
    show "?rw' ! (r + 1) = row g ! (r + 1) OR LEFT" using assms(3) len by simp
    show "?rw' ! (r + 1 - 1) = row g ! (r + 1 - 1) OR RIGHT" using assms(3) len by simp
    show "?rw' ! j = row g ! j" if "j \<noteq> r + 1" "j \<noteq> r + 1 - 1" for j using that by simp
  qed
  show ?thesis
    using assms link
    by (auto simp add: closeCell_def Let_def gen_ok_def set_g_unionSet)
qed

lemma resetRow_plain:
  assumes "gen_ok g"
  shows "gen_ok (resetRow g) \<and> width (resetRow g) = width g \<and>
         (\<forall>i<width g. row (resetRow g) ! i \<in> {UP, EMPTY})"
  using assms reset_loop_frame [of "width g" "(g, 1)"] reset_loop_rows [of "width g" g 1]
  by (simp add: resetRow_def gen_ok_def)

lemma carveRow_sym:
  assumes "gen_ok g" and "hsym (width g) (row g)"
  shows "gen_ok (carveRow rnd isLast g) \<and> width (carveRow rnd isLast g) = width g \<and>
         hsym (width g) (row (carveRow rnd isLast g))"
  unfolding carveRow_def
proof (rule fold_invariant [where Q = "\<lambda>i. i < width g"
      and P = "\<lambda>h. gen_ok h \<and> width h = width g \<and> hsym (width g) (row h)"])
  show "gen_ok g \<and> width g = width g \<and> hsym (width g) (row g)" using assms by simp
  show "gen_ok (carveCell rnd isLast x s) \<and> width (carveCell rnd isLast x s) = width g \<and>
        hsym (width g) (row (carveCell rnd isLast x s))"
    if "x < width g" "gen_ok s \<and> width s = width g \<and> hsym (width g) (row s)" for x s
    using that carveCell_sym [of s x rnd isLast] by simp
qed simp

lemma forceDownRow_sym:
  assumes "gen_ok g" and "hsym (width g) (row g)"
  shows "gen_ok (forceDownRow g) \<and> width (forceDownRow g) = width g \<and>
         hsym (width g) (row (forceDownRow g))"
  unfolding forceDownRow_def
proof (rule fold_invariant [where Q = "\<lambda>i. True"
      and P = "\<lambda>h. gen_ok h \<and> width h = width g \<and> hsym (width g) (row h)"])
  show "gen_ok g \<and> width g = width g \<and> hsym (width g) (row g)" using assms by simp
  show "gen_ok (forceDownCell x s) \<and> width (forceDownCell x s) = width g \<and>
        hsym (width g) (row (forceDownCell x s))"
    if "gen_ok s \<and> width s = width g \<and> hsym (width g) (row s)" for x s
    using that forceDownCell_sym [of s x] by simp
qed simp

lemma closeRow_sym:
  assumes "gen_ok g" and "hsym (width g) (row g)"
  shows "gen_ok (closeRow g) \<and> width (closeRow g) = width g \<and>
         hsym (width g) (row (closeRow g))"
  unfolding closeRow_def
proof (rule fold_invariant [where Q = "\<lambda>r. r + 1 < width g"
      and P = "\<lambda>h. gen_ok h \<and> width h = width g \<and> hsym (width g) (row h)"])
  show "gen_ok g \<and> width g = width g \<and> hsym (width g) (row g)" using assms by simp
  show "gen_ok (closeCell x s) \<and> width (closeCell x s) = width g \<and>
        hsym (width g) (row (closeCell x s))"
    if "x + 1 < width g" "gen_ok s \<and> width s = width g \<and> hsym (width g) (row s)" for x s
    using that closeCell_sym [of s x] by simp
  show "x + 1 < width g" if "x \<in> set [0..<width g - 1]" for x using that by auto
qed

text \<open>
  Claim C10: every row that \<open>makeRow\<close> produces, final or not, from arrays of \<open>width\<close>
  cells is horizontally symmetric: for every column \<open>i\<close> with \<open>1 \<le> i < width\<close> the
  cell has \<open>LEFT\<close> exactly when the cell of column \<open>i - 1\<close> has \<open>RIGHT\<close>, column 0
  never has \<open>LEFT\<close> and column \<open>width - 1\<close> never has \<open>RIGHT\<close>. The arrays keep
  their size.
\<close>

theorem makeRow_horizontal_symmetry:
  assumes "gen_ok g"
  shows "gen_ok (makeRow rnd isLast g) \<and> width (makeRow rnd isLast g) = width g \<and>
         hsym (width g) (row (makeRow rnd isLast g))"
proof -
  let ?g1 = "resetRow g"
  let ?g2 = "carveRow rnd isLast ?g1"
  have 1: "gen_ok ?g1 \<and> width ?g1 = width g \<and> hsym (width g) (row ?g1)"
    using resetRow_plain [OF assms] assms hsym_plain [of "width g" "row ?g1"]
    by (simp add: gen_ok_def)
  have 2: "gen_ok ?g2 \<and> width ?g2 = width g \<and> hsym (width g) (row ?g2)"
    using carveRow_sym [of ?g1 rnd isLast] 1 by simp
  show ?thesis
  proof (cases isLast)
    case True
    then show ?thesis using closeRow_sym [of ?g2] 2 by (simp add: makeRow_def)
  next
    case False
    then show ?thesis using forceDownRow_sym [of ?g2] 2 by (simp add: makeRow_def)
  qed
qed

theorem makeRow_horizontal_symmetry_witness:
  "gen_ok (initGen 3 False False) \<and>
   row (makeRow (\<lambda>k. 0) True (makeRow (\<lambda>k. k) False (initGen 3 False False))) = [9, 13, 5] \<and>
   hsym 3 (row (makeRow (\<lambda>k. 0) True (makeRow (\<lambda>k. k) False (initGen 3 False False))))"
proof -
  have a: "gen_ok (initGen 3 False False)" by code_simp
  have b: "gen_ok (makeRow (\<lambda>k. k) False (initGen 3 False False))"
    and w: "width (makeRow (\<lambda>k. k) False (initGen 3 False False)) = 3"
    using makeRow_horizontal_symmetry [OF a, of "\<lambda>k. k" False] by (simp_all add: initGen_def)
  have c: "row (makeRow (\<lambda>k. 0) True (makeRow (\<lambda>k. k) False (initGen 3 False False))) = [9, 13, 5]"
    by code_simp
  show ?thesis
    using a c makeRow_horizontal_symmetry [OF b, of "\<lambda>k. 0" True] w by simp
qed

subsection \<open>Fresh set labels\<close>

lemma resetCell_set:
  "set_g (fst (resetCell r (g, s))) =
     (if row g ! r AND DOWN \<noteq> 0 then set_g g
      else (set_g g)[r := nextSetNum (set_g g) (width g) s])"
  "snd (resetCell r (g, s)) =
     (if row g ! r AND DOWN \<noteq> 0 then s else nextSetNum (set_g g) (width g) s)"
  "row (fst (resetCell r (g, s))) =
     (row g)[r := (if row g ! r AND DOWN \<noteq> 0 then UP else EMPTY)]"
  by (simp_all add: resetCell_def Let_def)

lemma reset_loop_labels:
  assumes "k \<le> length (row g)" and "k \<le> length (set_g g)"
  shows "s0 \<le> snd (fold resetCell [0..<k] (g, s0)) \<and>
         (\<forall>j<k. row g ! j AND DOWN = 0 \<longrightarrow>
            set_g (fst (fold resetCell [0..<k] (g, s0))) ! j \<le> snd (fold resetCell [0..<k] (g, s0))) \<and>
         (snd (fold resetCell [0..<k] (g, s0)) = s0 \<or>
          (\<exists>j<k. row g ! j AND DOWN = 0 \<and>
            set_g (fst (fold resetCell [0..<k] (g, s0))) ! j = snd (fold resetCell [0..<k] (g, s0))))"
  using assms
proof (induction k)
  case 0
  then show ?case by simp
next
  case (Suc k)
  obtain gk sk where st: "fold resetCell [0..<k] (g, s0) = (gk, sk)"
    by (cases "fold resetCell [0..<k] (g, s0)")
  have IH: "s0 \<le> sk" "\<forall>j<k. row g ! j AND DOWN = 0 \<longrightarrow> set_g gk ! j \<le> sk"
      "sk = s0 \<or> (\<exists>j<k. row g ! j AND DOWN = 0 \<and> set_g gk ! j = sk)"
    using Suc st by simp_all
  have rowk: "row gk ! k = row g ! k"
    using reset_loop_rows [of k g s0] Suc.prems st by simp
  have len: "length (set_g gk) = length (set_g g)"
    using reset_loop_frame [of k "(g, s0)"] st by simp
  have k: "k < length (set_g gk)" using Suc.prems len by simp
  show ?case
  proof (cases "row g ! k AND DOWN \<noteq> 0")
    case True
    then show ?thesis
      using IH rowk by (auto simp add: st resetCell_set less_Suc_eq)
  next
    case False
    let ?n = "nextSetNum (set_g gk) (width gk) sk"
    have ge: "sk \<le> ?n" by (rule nextSetNum_ge)
    have "set_g (fst (resetCell k (gk, sk))) = (set_g gk)[k := ?n]"
      and "snd (resetCell k (gk, sk)) = ?n"
      using False rowk by (simp_all add: resetCell_set)
    then show ?thesis
      using IH ge k False
      by (auto simp add: st nth_list_update less_Suc_eq intro: order_trans)
  qed
qed

lemma reset_loop_later:
  assumes "r < k"
  shows "set_g (fst (fold resetCell [0..<k] st)) ! r = set_g (fst (fold resetCell [0..<Suc r] st)) ! r \<and>
         row (fst (fold resetCell [0..<k] st)) ! r = row (fst (fold resetCell [0..<Suc r] st)) ! r"
  using assms
proof (induction k)
  case 0
  then show ?case by simp
next
  case (Suc k)
  show ?case
  proof (cases "r = k")
    case True
    then show ?thesis by simp
  next
    case False
    with Suc.prems have rk: "r < k" by simp
    obtain gk sk where st: "fold resetCell [0..<k] st = (gk, sk)"
      by (cases "fold resetCell [0..<k] st")
    have "set_g (fst (resetCell k (gk, sk))) ! r = set_g gk ! r"
      and "row (fst (resetCell k (gk, sk))) ! r = row gk ! r"
      using rk by (simp_all add: resetCell_set)
    then show ?thesis using Suc.IH [OF rk] st by simp
  qed
qed

lemma reset_loop_kept:
  assumes "k \<le> length (row g)"
  shows "\<forall>j. k \<le> j \<or> row g ! j AND DOWN \<noteq> 0 \<longrightarrow>
           set_g (fst (fold resetCell [0..<k] (g, s0))) ! j = set_g g ! j"
  using assms
proof (induction k)
  case 0
  then show ?case by simp
next
  case (Suc k)
  obtain gk sk where st: "fold resetCell [0..<k] (g, s0) = (gk, sk)"
    by (cases "fold resetCell [0..<k] (g, s0)")
  have IH: "\<And>j. k \<le> j \<or> row g ! j AND DOWN \<noteq> 0 \<Longrightarrow> set_g gk ! j = set_g g ! j"
    using Suc st by auto
  have rowk: "row gk ! k = row g ! k"
    using reset_loop_rows [of k g s0] Suc.prems st by simp
  have "set_g (fst (resetCell k (gk, sk))) ! j = set_g g ! j"
    if "Suc k \<le> j \<or> row g ! j AND DOWN \<noteq> 0" for j
  proof (cases "row g ! k AND DOWN \<noteq> 0")
    case True
    then show ?thesis using that rowk IH [of j] by (auto simp add: resetCell_set)
  next
    case False
    with that have "j \<noteq> k" by auto
    then show ?thesis using that False rowk IH [of j] by (auto simp add: resetCell_set)
  qed
  then show ?case by (simp add: st)
qed

lemma dense_card:
  assumes "\<And>v. 0 < v \<Longrightarrow> v < n \<Longrightarrow> v \<in> set xs"
  shows "n \<le> Suc (length xs)"
proof -
  have "{1..<n} \<subseteq> set xs" using assms by auto
  then have "card {1..<n} \<le> card (set xs)" by (intro card_mono) simp_all
  also have "\<dots> \<le> length xs" by (rule card_length)
  finally show ?thesis by simp
qed

lemma reset_loop_dense:
  assumes ok: "gen_ok g" and an: "anchored g" and k: "k \<le> width g"
  shows "\<forall>v. 0 < v \<and> v < snd (fold resetCell [0..<k] (g, 1)) \<longrightarrow>
           v \<in> set (set_g (fst (fold resetCell [0..<k] (g, 1))))"
  using k
proof (induction k)
  case 0
  then show ?case by simp
next
  case (Suc k)
  obtain gk sk where st: "fold resetCell [0..<k] (g, 1) = (gk, sk)"
    by (cases "fold resetCell [0..<k] (g, 1)")
  have st': "fold resetCell [0..<k] (g, Suc 0) = (gk, sk)" using st by simp
  have lens: "length (set_g g) = width g" "length (row g) = width g"
    using ok by (simp_all add: gen_ok_def)
  have kw: "k < width g" using Suc.prems by simp
  have IH: "\<And>v. 0 < v \<Longrightarrow> v < sk \<Longrightarrow> v \<in> set (set_g gk)" using Suc st by simp
  have frame: "width gk = width g" "length (set_g gk) = width g"
    using reset_loop_frame [of k "(g, 1)"] st lens by simp_all
  have rowk: "row gk ! k = row g ! k"
    using reset_loop_rows [of k g 1] kw lens st by simp
  have kept: "\<And>j. k \<le> j \<or> row g ! j AND DOWN \<noteq> 0 \<Longrightarrow> set_g gk ! j = set_g g ! j"
    using reset_loop_kept [of k g 1] kw lens st by auto
  show ?case
  proof (cases "row g ! k AND DOWN \<noteq> 0")
    case True
    then show ?thesis using IH rowk by (simp add: st' resetCell_set)
  next
    case False
    let ?n = "nextSetNum (set_g gk) (width gk) sk"
    have tk: "take (width gk) (set_g gk) = set_g gk" using frame by simp
    have below: "v \<in> set (set_g gk)" if "0 < v" "v < ?n" for v
    proof (cases "v < sk")
      case True
      with that show ?thesis using IH by simp
    next
      case False
      then have "sk \<le> v" by simp
      from nextSetNum_passed [OF this that(2)] show ?thesis using tk by simp
    qed
    have nle: "?n \<le> Suc (width g)" using dense_card [of ?n "set_g gk"] below frame by simp
    have "v \<in> set ((set_g gk)[k := ?n])" if v: "0 < v" "v < ?n" for v
    proof -
      from below [OF v] obtain i where i: "i < width g" "set_g gk ! i = v"
        using frame by (auto simp add: in_set_conv_nth)
      show ?thesis
      proof (cases "i = k")
        case False
        then have "(set_g gk)[k := ?n] ! i = v" using i by simp
        moreover have "i < length ((set_g gk)[k := ?n])" using i frame by simp
        ultimately show ?thesis by (metis nth_mem)
      next
        case True
        then have vk: "set_g g ! k = v" using i kept [of k] by simp
        have "\<not> width g < v" using v(2) nle by simp
        with an kw False vk obtain j where j: "j < width g" "set_g g ! j = v" "row g ! j AND DOWN \<noteq> 0"
          by (auto simp add: anchored_def)
        then have "j \<noteq> k" using False by auto
        moreover have "set_g gk ! j = v" using kept [of j] j by simp
        ultimately have "(set_g gk)[k := ?n] ! j = v" by simp
        moreover have "j < length ((set_g gk)[k := ?n])" using j frame by simp
        ultimately show ?thesis by (metis nth_mem)
      qed
    qed
    then show ?thesis using False rowk by (simp add: st' resetCell_set)
  qed
qed

text \<open>
  Claim C4: in the first loop of \<open>makeRow\<close>, a column \<open>r\<close> whose cell does not go
  down gets a fresh set label. With \<open>(gr, s)\<close> the arrays and \<open>startingSetNum\<close> when
  the loop reaches column \<open>r\<close>: the search starts from \<open>s\<close>, which is 1 or the label
  given to an earlier column of this row and at least every label given before in this
  row (it does not start again from 1); the label is the lowest value from \<open>s\<close> on
  that is in no column of the set row at that moment, so it differs from every label in
  the row; it is positive and above the labels given earlier in this row; the next
  search starts from it; no other column's label changes, and the label is still there
  when the loop ends. In the states the program reaches (\<open>anchored\<close>) it is also
  the lowest positive number that is in no column at all.
\<close>

theorem resetCell_fresh_label:
  assumes "gen_ok g" and "r < width g"
    and "fold resetCell [0..<r] (g, 1) = (gr, s)"
    and "row g ! r AND DOWN = 0"
    and "resetCell r (gr, s) = (g', s')"
  shows "set_g g' ! r = (LEAST n. s \<le> n \<and> n \<notin> set (set_g gr)) \<and>
         set_g g' ! r \<notin> set (set_g gr) \<and>
         0 < set_g g' ! r \<and>
         s' = set_g g' ! r \<and>
         (s = 1 \<or> (\<exists>j<r. row g ! j AND DOWN = 0 \<and> set_g gr ! j = s)) \<and>
         (\<forall>j<r. row g ! j AND DOWN = 0 \<longrightarrow> set_g gr ! j \<le> s \<and> set_g gr ! j < set_g g' ! r) \<and>
         (\<forall>j<width g. j \<noteq> r \<longrightarrow> set_g g' ! j = set_g gr ! j) \<and>
         set_g (resetRow g) ! r = set_g g' ! r \<and> row (resetRow g) ! r = EMPTY \<and>
         (anchored g \<longrightarrow> set_g g' ! r = (LEAST n. 0 < n \<and> n \<notin> set (set_g gr)))"
proof -
  let ?n = "nextSetNum (set_g gr) (width gr) s"
  have lens: "length (set_g g) = width g" "length (row g) = width g"
    using assms(1) by (simp_all add: gen_ok_def)
  have frame: "width gr = width g" "length (set_g gr) = width g" "length (row gr) = width g"
    using reset_loop_frame [of r "(g, 1)"] assms(3) lens by simp_all
  have rowr: "row gr ! r = row g ! r"
    using reset_loop_rows [of r g 1] assms(2,3) lens by simp
  have lab: "1 \<le> s" "\<forall>j<r. row g ! j AND DOWN = 0 \<longrightarrow> set_g gr ! j \<le> s"
      "s = 1 \<or> (\<exists>j<r. row g ! j AND DOWN = 0 \<and> set_g gr ! j = s)"
    using reset_loop_labels [of r g 1] assms(2,3) lens by simp_all
  have tk: "take (width gr) (set_g gr) = set_g gr" using frame by simp
  have free: "?n \<notin> set (set_g gr)" using nextSetNum_free [of "set_g gr" "width gr" s] tk by simp
  have ge: "s \<le> ?n" by (rule nextSetNum_ge)
  have passed: "k \<in> set (set_g gr)" if "s \<le> k" "k < ?n" for k
    using nextSetNum_passed [OF that] tk by simp
  have g': "set_g g' = (set_g gr)[r := ?n]" "s' = ?n" "row g' = (row gr)[r := EMPTY]"
    using resetCell_set [of r gr s] assms(4,5) rowr by simp_all
  have at: "set_g g' ! r = ?n" using g' frame assms(2) by simp
  have least: "(LEAST n. s \<le> n \<and> n \<notin> set (set_g gr)) = ?n"
  proof (rule Least_equality)
    show "s \<le> ?n \<and> ?n \<notin> set (set_g gr)" using ge free by simp
    show "?n \<le> y" if "s \<le> y \<and> y \<notin> set (set_g gr)" for y
      using that passed [of y] by (meson not_le_imp_less)
  qed
  have lowest: "(LEAST n. 0 < n \<and> n \<notin> set (set_g gr)) = ?n" if "anchored g"
  proof (rule Least_equality)
    show "0 < ?n \<and> ?n \<notin> set (set_g gr)" using ge free lab(1) by simp
    show "?n \<le> y" if y: "0 < y \<and> y \<notin> set (set_g gr)" for y
    proof -
      have "\<not> y < s"
        using reset_loop_dense [OF assms(1) \<open>anchored g\<close>, of r] assms(2,3) y by auto
      then show ?thesis using y passed [of y] by (meson not_le_imp_less)
    qed
  qed
  have earlier: "set_g gr ! j \<le> s \<and> set_g gr ! j < ?n" if "j < r" "row g ! j AND DOWN = 0" for j
  proof -
    have a: "set_g gr ! j \<le> s" using lab(2) that by simp
    have "set_g gr ! j \<in> set (set_g gr)" using that(1) assms(2) frame by simp
    with free have "set_g gr ! j \<noteq> ?n" by metis
    with a ge show ?thesis by simp
  qed
  have final: "set_g (resetRow g) ! r = ?n \<and> row (resetRow g) ! r = EMPTY"
  proof -
    have "fold resetCell [0..<Suc r] (g, 1) = (g', s')" using assms(3,5) by simp
    then show ?thesis
      using reset_loop_later [OF assms(2), of "(g, 1)"] at g' frame assms(2)
      by (simp add: resetRow_def)
  qed
  have pos: "0 < ?n" using ge lab(1) by simp
  show ?thesis
    using least lowest free at g' lab earlier final pos by (auto simp add: nth_list_update)
qed

theorem resetCell_fresh_label_witness:
  "gen_ok (makeRow (\<lambda>k. if k \<in> {2, 3, 6, 7} then 1 else 0) False (initGen 4 False False)) \<and>
   set_g (makeRow (\<lambda>k. if k \<in> {2, 3, 6, 7} then 1 else 0) False (initGen 4 False False)) = [2, 2, 4, 4] \<and>
   row (makeRow (\<lambda>k. if k \<in> {2, 3, 6, 7} then 1 else 0) False (initGen 4 False False)) ! 2 AND DOWN = 0 \<and>
   set_g (fst (fold resetCell [0..<2]
     (makeRow (\<lambda>k. if k \<in> {2, 3, 6, 7} then 1 else 0) False (initGen 4 False False), 1))) = [1, 2, 4, 4] \<and>
   snd (fold resetCell [0..<2]
     (makeRow (\<lambda>k. if k \<in> {2, 3, 6, 7} then 1 else 0) False (initGen 4 False False), 1)) = 1 \<and>
   set_g (fst (resetCell 2 (fold resetCell [0..<2]
     (makeRow (\<lambda>k. if k \<in> {2, 3, 6, 7} then 1 else 0) False (initGen 4 False False), 1)))) = [1, 2, 3, 4] \<and>
   (LEAST n. 1 \<le> n \<and> n \<notin> set [1, 2, 4, 4]) = (3::nat)"
proof -
  let ?g = "makeRow (\<lambda>k. if k \<in> {2, 3, 6, 7} then 1 else 0) False (initGen 4 False False)"
  let ?st = "fold resetCell [0..<2] (?g, 1)"
  have a: "gen_ok ?g" by code_simp
  have w: "2 < width ?g" by code_simp
  have s0: "set_g ?g = [2, 2, 4, 4]" by code_simp
  have d: "row ?g ! 2 AND DOWN = 0" by code_simp
  have s1: "set_g (fst ?st) = [1, 2, 4, 4]" by code_simp
  have s2: "snd ?st = 1" by code_simp
  have s3: "set_g (fst (resetCell 2 ?st)) = [1, 2, 3, 4]" by code_simp
  have e1: "fold resetCell [0..<2] (?g, 1) = (fst ?st, snd ?st)" by simp
  have e2: "resetCell 2 (fst ?st, snd ?st) = (fst (resetCell 2 ?st), snd (resetCell 2 ?st))" by simp
  have "set_g (fst (resetCell 2 ?st)) ! 2 = (LEAST n. snd ?st \<le> n \<and> n \<notin> set (set_g (fst ?st)))"
    using resetCell_fresh_label [OF a w e1 d e2] by blast
  then have "(LEAST n. 1 \<le> n \<and> n \<notin> set [1, 2, 4, 4]) = (3::nat)"
    by (simp only: s1 s2 s3) simp
  then show ?thesis using a s0 d s1 s2 s3 by simp
qed

subsection \<open>The third loop of makeRow\<close>

lemma forceDownCell_frame [simp]:
  "set_g (forceDownCell r g) = set_g g" "width (forceDownCell r g) = width g"
  "length (row (forceDownCell r g)) = length (row g)"
  "previousRow (forceDownCell r g) = previousRow g"
  by (simp_all add: forceDownCell_def Let_def)

lemma forceDown_loop:
  assumes len: "length (row g) = width g" and k: "k \<le> width g"
  shows "set_g (fold forceDownCell [0..<k] g) = set_g g \<and>
         width (fold forceDownCell [0..<k] g) = width g \<and>
         length (row (fold forceDownCell [0..<k] g)) = width g \<and>
         (\<forall>r<width g. row (fold forceDownCell [0..<k] g) ! r =
            (if r < k \<and> (\<forall>i<width g. set_g g ! i = set_g g ! r \<longrightarrow> row g ! i AND DOWN = 0) \<and>
                (\<forall>j<r. set_g g ! j \<noteq> set_g g ! r)
             then row g ! r OR DOWN else row g ! r))"
  using k
proof (induction k)
  case 0
  then show ?case using len by simp
next
  case (Suc k)
  let ?gk = "fold forceDownCell [0..<k] g"
  let ?noDown = "\<lambda>r. \<forall>i<width g. set_g g ! i = set_g g ! r \<longrightarrow> row g ! i AND DOWN = 0"
  let ?first = "\<lambda>r. \<forall>j<r. set_g g ! j \<noteq> set_g g ! r"
  have kw: "k < width g" using Suc.prems by simp
  have IH: "set_g ?gk = set_g g" "width ?gk = width g" "length (row ?gk) = width g"
    "\<And>r. r < width g \<Longrightarrow> row ?gk ! r =
        (if r < k \<and> ?noDown r \<and> ?first r then row g ! r OR DOWN else row g ! r)"
    using Suc by simp_all
  have rk: "row ?gk ! k = row g ! k" using IH(4) [OF kw] by simp
  have mono: "row ?gk ! i AND DOWN \<noteq> 0" if "i < width g" "row g ! i AND DOWN \<noteq> 0" for i
    using IH(4) [OF that(1)] that(2) by (simp add: or_and_same flags_nonzero32)
  have forced: "row (forceDownCell k ?gk) = (row ?gk)[k := row g ! k OR DOWN]"
    if nd: "?noDown k" and fst: "?first k"
  proof -
    have k0: "row g ! k AND DOWN = 0" using nd kw by simp
    have "row ?gk ! i AND DOWN = 0" if "i < width g" "set_g g ! i = set_g g ! k" for i
    proof -
      have "\<not> i < k" using fst that(2) by auto
      then have "row ?gk ! i = row g ! i" using IH(4) [OF that(1)] by simp
      then show ?thesis using nd that by simp
    qed
    then have "\<not> list_ex (\<lambda>i. set_g ?gk ! i = set_g ?gk ! k \<and> row ?gk ! i AND DOWN \<noteq> 0) [0..<width ?gk]"
      using IH(1,2) by (auto simp add: list_ex_iff)
    then show ?thesis
      using k0 rk by (simp add: forceDownCell_def Let_def)
  qed
  have kept: "row (forceDownCell k ?gk) = row ?gk" if "\<not> (?noDown k \<and> ?first k)"
  proof (cases "?noDown k")
    case nd: True
    with that have nf: "\<not> ?first k" by blast
    define f where "f = (LEAST j. set_g g ! j = set_g g ! k)"
    have ex: "\<exists>j. set_g g ! j = set_g g ! k" by auto
    have f1: "set_g g ! f = set_g g ! k" unfolding f_def by (rule LeastI_ex [OF ex])
    have f2: "\<And>j. set_g g ! j = set_g g ! k \<Longrightarrow> f \<le> j"
      unfolding f_def by (rule Least_le)
    from nf obtain j where "j < k" "set_g g ! j = set_g g ! k" by auto
    with f2 have fk: "f < k" by fastforce
    then have fw: "f < width g" using kw by simp
    have "?first f" using f1 f2 by fastforce
    moreover have "?noDown f" using nd f1 by simp
    ultimately have "row ?gk ! f = row g ! f OR DOWN" using IH(4) [OF fw] fk by simp
    then have "row ?gk ! f AND DOWN \<noteq> 0" by (simp add: or_and_same flags_nonzero32)
    then have "list_ex (\<lambda>i. set_g ?gk ! i = set_g ?gk ! k \<and> row ?gk ! i AND DOWN \<noteq> 0) [0..<width ?gk]"
      using IH(1,2) f1 fw by (auto simp add: list_ex_iff)
    then show ?thesis by (simp add: forceDownCell_def Let_def)
  next
    case False
    then obtain i where i: "i < width g" "set_g g ! i = set_g g ! k" "row g ! i AND DOWN \<noteq> 0"
      by auto
    then have "list_ex (\<lambda>i. set_g ?gk ! i = set_g ?gk ! k \<and> row ?gk ! i AND DOWN \<noteq> 0) [0..<width ?gk]"
      using IH(1,2) mono [of i] by (auto simp add: list_ex_iff)
    then show ?thesis by (simp add: forceDownCell_def Let_def)
  qed
  have "row (fold forceDownCell [0..<Suc k] g) ! r =
      (if r < Suc k \<and> ?noDown r \<and> ?first r then row g ! r OR DOWN else row g ! r)"
    if "r < width g" for r
  proof (cases "r = k")
    case True
    show ?thesis
    proof (cases "?noDown k \<and> ?first k")
      case c: True
      then have "row (forceDownCell k ?gk) = (row ?gk)[k := row g ! k OR DOWN]"
        using forced by blast
      with c True IH(3) kw show ?thesis by simp
    next
      case c: False
      then have "row (forceDownCell k ?gk) = row ?gk" by (rule kept)
      with c True rk show ?thesis by auto
    qed
  next
    case False
    have "row (forceDownCell k ?gk) ! r = row ?gk ! r"
    proof (cases "?noDown k \<and> ?first k")
      case True
      then have "row (forceDownCell k ?gk) = (row ?gk)[k := row g ! k OR DOWN]"
        using forced by blast
      with False show ?thesis by simp
    next
      case False
      then show ?thesis using kept by simp
    qed
    then show ?thesis using IH(4) [OF that] False by (simp add: less_Suc_eq)
  qed
  then show ?case using IH(1,2,3) by simp
qed

lemma forceDownRow_char:
  assumes "length (row g) = width g"
  shows "set_g (forceDownRow g) = set_g g \<and> width (forceDownRow g) = width g \<and>
         length (row (forceDownRow g)) = width g \<and>
         (\<forall>r<width g. row (forceDownRow g) ! r =
            (if (\<forall>i<width g. set_g g ! i = set_g g ! r \<longrightarrow> row g ! i AND DOWN = 0) \<and>
                (\<forall>j<r. set_g g ! j \<noteq> set_g g ! r)
             then row g ! r OR DOWN else row g ! r))"
  using forceDown_loop [OF assms, of "width g"] by (simp add: forceDownRow_def)

lemma forceDownRow_every_set_down:
  assumes len: "length (row g) = width g" and m: "m < width g"
  shows "\<exists>i<width g. set_g g ! i = set_g g ! m \<and> row (forceDownRow g) ! i AND DOWN \<noteq> 0"
proof -
  let ?noDown = "\<lambda>r. \<forall>i<width g. set_g g ! i = set_g g ! r \<longrightarrow> row g ! i AND DOWN = 0"
  let ?first = "\<lambda>r. \<forall>j<r. set_g g ! j \<noteq> set_g g ! r"
  have char: "\<And>r. r < width g \<Longrightarrow> row (forceDownRow g) ! r =
      (if ?noDown r \<and> ?first r then row g ! r OR DOWN else row g ! r)"
    using forceDownRow_char [OF len] by simp
  show ?thesis
  proof (cases "?noDown m")
    case True
    define f where "f = (LEAST j. set_g g ! j = set_g g ! m)"
    have ex: "\<exists>j. set_g g ! j = set_g g ! m" by auto
    have f1: "set_g g ! f = set_g g ! m" unfolding f_def by (rule LeastI_ex [OF ex])
    have f2: "\<And>j. set_g g ! j = set_g g ! m \<Longrightarrow> f \<le> j"
      unfolding f_def by (rule Least_le)
    have fw: "f < width g" using f2 [of m] m by simp
    have "?first f" using f1 f2 by fastforce
    moreover have "?noDown f" using True f1 by simp
    ultimately have "row (forceDownRow g) ! f = row g ! f OR DOWN" using char [OF fw] by simp
    then have "row (forceDownRow g) ! f AND DOWN \<noteq> 0"
      by (simp add: or_and_same flags_nonzero32)
    with f1 fw show ?thesis by blast
  next
    case False
    then obtain i where i: "i < width g" "set_g g ! i = set_g g ! m" "row g ! i AND DOWN \<noteq> 0"
      by auto
    have "row (forceDownRow g) ! i AND DOWN \<noteq> 0"
      using char [OF i(1)] i(3) by (simp add: or_and_same flags_nonzero32)
    with i show ?thesis by blast
  qed
qed

lemma carved_ok:
  assumes "gen_ok g"
  shows "gen_ok (carveRow rnd isLast (resetRow g))"
    and "width (carveRow rnd isLast (resetRow g)) = width g"
proof -
  have 1: "gen_ok (resetRow g)" "width (resetRow g) = width g"
    "hsym (width (resetRow g)) (row (resetRow g))"
    using resetRow_plain [OF assms] assms hsym_plain [of "width g" "row (resetRow g)"]
    by (simp_all add: gen_ok_def)
  show "gen_ok (carveRow rnd isLast (resetRow g))"
    and "width (carveRow rnd isLast (resetRow g)) = width g"
    using carveRow_sym [OF 1(1) 1(3), of rnd isLast] 1(2) by simp_all
qed

text \<open>
  Claim C5: after \<open>makeRow\<close> on a row that is not the last one, every set label in
  the set row has a column with that label whose cell has \<open>DOWN\<close>. With \<open>g2\<close> the
  arrays after the two carving loops: the third loop leaves the set row as it is, and
  it changes a cell only by setting \<open>DOWN\<close>, which it does exactly for the first
  column (from the left) of each set that has no \<open>DOWN\<close> column in \<open>g2\<close>.
\<close>

theorem makeRow_forced_down:
  assumes "gen_ok g"
  shows "set_g (makeRow rnd False g) = set_g (carveRow rnd False (resetRow g)) \<and>
     (\<forall>l\<in>set (set_g (makeRow rnd False g)).
        \<exists>i<width g. set_g (makeRow rnd False g) ! i = l \<and> row (makeRow rnd False g) ! i AND DOWN \<noteq> 0) \<and>
     (\<forall>r<width g. row (makeRow rnd False g) ! r =
        (if (\<forall>i<width g. set_g (carveRow rnd False (resetRow g)) ! i = set_g (carveRow rnd False (resetRow g)) ! r
                \<longrightarrow> row (carveRow rnd False (resetRow g)) ! i AND DOWN = 0) \<and>
            (\<forall>j<r. set_g (carveRow rnd False (resetRow g)) ! j \<noteq> set_g (carveRow rnd False (resetRow g)) ! r)
         then row (carveRow rnd False (resetRow g)) ! r OR DOWN
         else row (carveRow rnd False (resetRow g)) ! r))"
proof -
  let ?g2 = "carveRow rnd False (resetRow g)"
  have ok: "gen_ok ?g2" and w: "width ?g2 = width g" using carved_ok [OF assms] by simp_all
  then have len: "length (row ?g2) = width ?g2" and lens: "length (set_g ?g2) = width g"
    by (simp_all add: gen_ok_def)
  have mk: "makeRow rnd False g = forceDownRow ?g2" by (simp add: makeRow_def)
  have sets: "set_g (forceDownRow ?g2) = set_g ?g2" using forceDownRow_char [OF len] by simp
  have "\<exists>i<width g. set_g ?g2 ! i = l \<and> row (forceDownRow ?g2) ! i AND DOWN \<noteq> 0"
    if "l \<in> set (set_g ?g2)" for l
  proof -
    from that obtain m where "m < width g" "set_g ?g2 ! m = l"
      using lens by (auto simp add: in_set_conv_nth)
    then show ?thesis using forceDownRow_every_set_down [OF len, of m] w by auto
  qed
  then show ?thesis
    using forceDownRow_char [OF len] w by (simp add: mk sets)
qed

theorem makeRow_forced_down_witness:
  "gen_ok (initGen 3 False False) \<and>
   set_g (makeRow (\<lambda>k. if k = 2 then 1 else 0) False (initGen 3 False False)) = [2, 2, 3] \<and>
   row (carveRow (\<lambda>k. if k = 2 then 1 else 0) False (resetRow (initGen 3 False False))) = [8, 4, 0] \<and>
   row (makeRow (\<lambda>k. if k = 2 then 1 else 0) False (initGen 3 False False)) = [10, 4, 2] \<and>
   (\<exists>i<3. set_g (makeRow (\<lambda>k. if k = 2 then 1 else 0) False (initGen 3 False False)) ! i = 2 \<and>
      row (makeRow (\<lambda>k. if k = 2 then 1 else 0) False (initGen 3 False False)) ! i AND DOWN \<noteq> 0)"
proof -
  let ?rnd = "\<lambda>k::nat. if k = 2 then 1 else 0 :: nat"
  let ?g = "initGen 3 False False"
  have a: "gen_ok ?g" by code_simp
  have w: "width ?g = 3" by (simp add: initGen_def)
  have s: "set_g (makeRow ?rnd False ?g) = [2, 2, 3]" by code_simp
  have c: "row (carveRow ?rnd False (resetRow ?g)) = [8, 4, 0]" by code_simp
  have r: "row (makeRow ?rnd False ?g) = [10, 4, 2]" by code_simp
  have "\<forall>l\<in>set (set_g (makeRow ?rnd False ?g)).
          \<exists>i<width ?g. set_g (makeRow ?rnd False ?g) ! i = l \<and> row (makeRow ?rnd False ?g) ! i AND DOWN \<noteq> 0"
    using makeRow_forced_down [OF a, of ?rnd] by blast
  moreover have "2 \<in> set (set_g (makeRow ?rnd False ?g))" by (simp add: s)
  ultimately have "\<exists>i<width ?g. set_g (makeRow ?rnd False ?g) ! i = 2 \<and>
      row (makeRow ?rnd False ?g) ! i AND DOWN \<noteq> 0"
    by blast
  then show ?thesis using a s c r w by simp
qed

lemma anchored_initGen: "anchored (initGen w ds dr)"
  by (simp add: anchored_def initGen_def)

lemma anchored_makeRow:
  assumes "gen_ok g"
  shows "anchored (makeRow rnd False g)"
proof -
  let ?g2 = "carveRow rnd False (resetRow g)"
  have ok: "gen_ok ?g2" and w: "width ?g2 = width g" using carved_ok [OF assms] by simp_all
  then have len: "length (row ?g2) = width ?g2" by (simp add: gen_ok_def)
  have mk: "makeRow rnd False g = forceDownRow ?g2" by (simp add: makeRow_def)
  have fr: "set_g (forceDownRow ?g2) = set_g ?g2" "width (forceDownRow ?g2) = width ?g2"
    using forceDownRow_char [OF len] by simp_all
  have "\<exists>j\<in>{0..<width ?g2}. set_g ?g2 ! j = set_g ?g2 ! k \<and> row (forceDownRow ?g2) ! j AND DOWN \<noteq> 0"
    if "k < width ?g2" for k
    using forceDownRow_every_set_down [OF len that] by auto
  then show ?thesis by (simp add: anchored_def mk fr)
qed

subsection \<open>The fourth loop of makeRow\<close>

lemma or_keeps:
  fixes x f g :: "'a::len word"
  shows "x AND f \<noteq> 0 \<Longrightarrow> (x OR g) AND f \<noteq> 0"
  by (simp add: bit.conj_disj_distrib2 or_eq_0_iff)

lemma update_keeps32:
  fixes xs :: "32 word list"
  assumes "xs ! i AND f \<noteq> 0"
  shows "(xs[n := xs ! n OR v]) ! i AND f \<noteq> 0"
  using assms
  by (cases "n < length xs"; cases "i = n") (simp_all add: or_keeps list_update_beyond)

lemma closeCell_row:
  "row (closeCell r g) = row g \<or>
   row (closeCell r g) =
     ((row g)[r := row g ! r OR RIGHT])[r + 1 := ((row g)[r := row g ! r OR RIGHT]) ! (r + 1) OR LEFT]"
  by (simp add: closeCell_def Let_def)

lemma closeCell_keeps:
  assumes "row g ! i AND f \<noteq> 0"
  shows "row (closeCell r g) ! i AND f \<noteq> 0"
  using closeCell_row [of r g]
proof
  assume "row (closeCell r g) = row g"
  with assms show ?thesis by simp
next
  let ?rw = "(row g)[r := row g ! r OR RIGHT]"
  assume e: "row (closeCell r g) = ?rw[r + 1 := ?rw ! (r + 1) OR LEFT]"
  have "?rw ! i AND f \<noteq> 0" using assms by (rule update_keeps32)
  then have "?rw[r + 1 := ?rw ! (r + 1) OR LEFT] ! i AND f \<noteq> 0" by (rule update_keeps32)
  with e show ?thesis by simp
qed

lemma closeCell_ok:
  assumes "gen_ok g"
  shows "gen_ok (closeCell r g) \<and> width (closeCell r g) = width g"
  using assms by (auto simp add: closeCell_def Let_def gen_ok_def set_g_unionSet)

lemma close_loop_keeps:
  assumes "row (fold closeCell [0..<k] g) ! i AND f \<noteq> 0" and "k \<le> n"
  shows "row (fold closeCell [0..<n] g) ! i AND f \<noteq> 0"
  using assms(2)
proof (induction n)
  case 0
  with assms(1) show ?case by simp
next
  case (Suc n)
  show ?case
  proof (cases "k = Suc n")
    case True
    with assms(1) show ?thesis by simp
  next
    case False
    with Suc have "row (fold closeCell [0..<n] g) ! i AND f \<noteq> 0" by simp
    then show ?thesis by (simp add: closeCell_keeps)
  qed
qed

lemma closeCell_step:
  assumes "gen_ok g" and "r + 1 < width g" and "set_g g ! r \<noteq> set_g g ! (r + 1)"
  shows "row (closeCell r g) ! r AND RIGHT \<noteq> 0"
    and "row (closeCell r g) ! (r + 1) AND LEFT \<noteq> 0"
    and "set_g (closeCell r g) = map (\<lambda>x. if x = set_g g ! r then set_g g ! (r + 1) else x) (set_g g)"
proof -
  have len: "length (row g) = width g" "length (set_g g) = width g"
    using assms(1) by (simp_all add: gen_ok_def)
  show "row (closeCell r g) ! r AND RIGHT \<noteq> 0"
    using assms len by (simp add: closeCell_def Let_def or_and_same flags_nonzero32)
  show "row (closeCell r g) ! (r + 1) AND LEFT \<noteq> 0"
    using assms len by (simp add: closeCell_def Let_def or_and_same flags_nonzero32)
  show "set_g (closeCell r g) = map (\<lambda>x. if x = set_g g ! r then set_g g ! (r + 1) else x) (set_g g)"
    using assms len by (simp add: closeCell_def Let_def set_g_unionSet)
qed

lemma close_loop_ok:
  assumes "gen_ok g"
  shows "gen_ok (fold closeCell [0..<k] g) \<and> width (fold closeCell [0..<k] g) = width g"
proof (induction k)
  case 0
  then show ?case using assms by simp
next
  case (Suc k)
  then show ?case using closeCell_ok [of "fold closeCell [0..<k] g" k] by simp
qed

lemma close_loop_prefix:
  assumes "gen_ok g" and "k \<le> width g - 1"
  shows "\<forall>i\<le>k. set_g (fold closeCell [0..<k] g) ! i = set_g (fold closeCell [0..<k] g) ! k"
  using assms(2)
proof (induction k)
  case 0
  then show ?case by simp
next
  case (Suc k)
  let ?gk = "fold closeCell [0..<k] g"
  have ok: "gen_ok ?gk" "width ?gk = width g"
    using close_loop_ok [OF assms(1), of k] by simp_all
  have len: "length (set_g ?gk) = width g" using ok by (simp add: gen_ok_def)
  have k1: "k + 1 < width g" using Suc.prems by simp
  have "k \<le> width g - 1" using Suc.prems by simp
  from Suc.IH [OF this] have IH: "\<And>i. i \<le> k \<Longrightarrow> set_g ?gk ! i = set_g ?gk ! k" by blast
  have "set_g (closeCell k ?gk) ! i = set_g ?gk ! (k + 1)" if "i \<le> Suc k" for i
  proof (cases "set_g ?gk ! k = set_g ?gk ! (k + 1)")
    case True
    then have "closeCell k ?gk = ?gk" by (simp add: closeCell_def)
    moreover have "set_g ?gk ! i = set_g ?gk ! (k + 1)"
    proof (cases "i = Suc k")
      case True
      then show ?thesis by simp
    next
      case False
      with that have "i \<le> k" by simp
      then have "set_g ?gk ! i = set_g ?gk ! k" by (rule IH)
      then show ?thesis using \<open>set_g ?gk ! k = set_g ?gk ! (k + 1)\<close> by simp
    qed
    ultimately show ?thesis by simp
  next
    case False
    have m: "set_g (closeCell k ?gk) =
        map (\<lambda>x. if x = set_g ?gk ! k then set_g ?gk ! (k + 1) else x) (set_g ?gk)"
      using closeCell_step(3) [OF ok(1) _ False] k1 ok(2) by simp
    have iw: "i < length (set_g ?gk)" using that k1 len by simp
    show ?thesis
    proof (cases "i = Suc k")
      case True
      then show ?thesis using m iw by simp
    next
      case False
      with that have "i \<le> k" by simp
      then have "set_g ?gk ! i = set_g ?gk ! k" by (rule IH)
      then show ?thesis using m iw by simp
    qed
  qed
  then show ?case by simp
qed

text \<open>
  Claim C6: after \<open>makeRow\<close> on the last row all columns of the set row carry the
  same label. Whenever the scan from left to right reaches a pair \<open>(r, r + 1)\<close> whose
  columns are in different sets at that moment, it carves the passage (\<open>RIGHT\<close> on
  \<open>r\<close>, \<open>LEFT\<close> on \<open>r + 1\<close>, both still set when \<open>makeRow\<close> returns) and unites
  the two sets: every column with the label of \<open>r\<close> gets the label of \<open>r + 1\<close>.
\<close>

theorem makeRow_last_single_set:
  assumes "gen_ok g"
  shows "(\<forall>i<width g. \<forall>j<width g.
            set_g (makeRow rnd True g) ! i = set_g (makeRow rnd True g) ! j) \<and>
         (\<forall>r. r + 1 < width g \<and>
              set_g (fold closeCell [0..<r] (carveRow rnd True (resetRow g))) ! r \<noteq>
              set_g (fold closeCell [0..<r] (carveRow rnd True (resetRow g))) ! (r + 1) \<longrightarrow>
            row (makeRow rnd True g) ! r AND RIGHT \<noteq> 0 \<and>
            row (makeRow rnd True g) ! (r + 1) AND LEFT \<noteq> 0 \<and>
            set_g (fold closeCell [0..<r + 1] (carveRow rnd True (resetRow g))) =
              map (\<lambda>x. if x = set_g (fold closeCell [0..<r] (carveRow rnd True (resetRow g))) ! r
                        then set_g (fold closeCell [0..<r] (carveRow rnd True (resetRow g))) ! (r + 1)
                        else x)
                (set_g (fold closeCell [0..<r] (carveRow rnd True (resetRow g)))))"
proof -
  let ?g2 = "carveRow rnd True (resetRow g)"
  have ok: "gen_ok ?g2" and w: "width ?g2 = width g" using carved_ok [OF assms] by simp_all
  have mk: "makeRow rnd True g = fold closeCell [0..<width g - 1] ?g2"
    by (simp add: makeRow_def closeRow_def w)
  have same: "set_g (makeRow rnd True g) ! i = set_g (makeRow rnd True g) ! (width g - 1)"
    if "i < width g" for i
  proof -
    have le: "width g - 1 \<le> width ?g2 - 1" using w by simp
    have "\<forall>i\<le>width g - 1. set_g (makeRow rnd True g) ! i = set_g (makeRow rnd True g) ! (width g - 1)"
      unfolding mk by (rule close_loop_prefix [OF ok le])
    moreover have "i \<le> width g - 1" using that by simp
    ultimately show ?thesis by blast
  qed
  have one: "set_g (makeRow rnd True g) ! i = set_g (makeRow rnd True g) ! j"
    if "i < width g" "j < width g" for i j
    using same [OF that(1)] same [OF that(2)] by simp
  have pair: "row (makeRow rnd True g) ! r AND RIGHT \<noteq> 0 \<and>
      row (makeRow rnd True g) ! (r + 1) AND LEFT \<noteq> 0 \<and>
      set_g (fold closeCell [0..<r + 1] ?g2) =
        map (\<lambda>x. if x = set_g (fold closeCell [0..<r] ?g2) ! r
                  then set_g (fold closeCell [0..<r] ?g2) ! (r + 1) else x)
          (set_g (fold closeCell [0..<r] ?g2))"
    if r: "r + 1 < width g"
      and ne: "set_g (fold closeCell [0..<r] ?g2) ! r \<noteq> set_g (fold closeCell [0..<r] ?g2) ! (r + 1)"
    for r
  proof -
    let ?st = "fold closeCell [0..<r] ?g2"
    have st: "gen_ok ?st" "width ?st = width g" using close_loop_ok [OF ok, of r] w by simp_all
    have r': "r + 1 < width ?st" using r st by simp
    have nx: "fold closeCell [0..<r + 1] ?g2 = closeCell r ?st" by simp
    have le: "r + 1 \<le> width g - 1" using r by simp
    have "row (fold closeCell [0..<r + 1] ?g2) ! r AND RIGHT \<noteq> 0"
      using closeCell_step(1) [OF st(1) r' ne] by simp
    then have a: "row (makeRow rnd True g) ! r AND RIGHT \<noteq> 0"
      unfolding mk using le by (rule close_loop_keeps)
    have "row (fold closeCell [0..<r + 1] ?g2) ! (r + 1) AND LEFT \<noteq> 0"
      using closeCell_step(2) [OF st(1) r' ne] by simp
    then have b: "row (makeRow rnd True g) ! (r + 1) AND LEFT \<noteq> 0"
      unfolding mk using le by (rule close_loop_keeps)
    show ?thesis
      using a b closeCell_step(3) [OF st(1) r' ne] by simp
  qed
  show ?thesis using one pair by blast
qed

theorem makeRow_last_single_set_witness:
  "gen_ok (makeRow (\<lambda>k. if k = 3 then 0 else 1) False (initGen 3 False False)) \<and>
   set_g (carveRow (\<lambda>k. 0) True (resetRow
     (makeRow (\<lambda>k. if k = 3 then 0 else 1) False (initGen 3 False False)))) = [3, 1, 3] \<and>
   set_g (makeRow (\<lambda>k. 0) True
     (makeRow (\<lambda>k. if k = 3 then 0 else 1) False (initGen 3 False False))) = [1, 1, 1] \<and>
   row (makeRow (\<lambda>k. 0) True
     (makeRow (\<lambda>k. if k = 3 then 0 else 1) False (initGen 3 False False))) ! 0 AND RIGHT \<noteq> 0 \<and>
   row (makeRow (\<lambda>k. 0) True
     (makeRow (\<lambda>k. if k = 3 then 0 else 1) False (initGen 3 False False))) ! (0 + 1) AND LEFT \<noteq> 0"
proof -
  let ?g = "makeRow (\<lambda>k. if k = 3 then 0 else 1) False (initGen 3 False False)"
  let ?rnd = "\<lambda>k::nat. 0::nat"
  have a: "gen_ok ?g" by code_simp
  have w: "0 + 1 < width ?g" by code_simp
  have c: "set_g (carveRow ?rnd True (resetRow ?g)) = [3, 1, 3]" by code_simp
  have s: "set_g (makeRow ?rnd True ?g) = [1, 1, 1]" by code_simp
  have ne: "set_g (fold closeCell [0..<0] (carveRow ?rnd True (resetRow ?g))) ! 0 \<noteq>
            set_g (fold closeCell [0..<0] (carveRow ?rnd True (resetRow ?g))) ! (0 + 1)"
    by (simp add: c)
  have "row (makeRow ?rnd True ?g) ! 0 AND RIGHT \<noteq> 0 \<and>
        row (makeRow ?rnd True ?g) ! (0 + 1) AND LEFT \<noteq> 0"
    using makeRow_last_single_set [OF a, of ?rnd] w ne by blast
  then show ?thesis using a c s by simp
qed

section \<open>Solver: the row parser\<close>

lemma convertCell_fault:
  assumes "\<not> readable a b c i"
  shows "\<exists>e. convertCell a b c i st = Inl e"
  using assms
  by (cases st; cases a)
     (auto simp add: convertCell_def readable_def charAt_def Let_def)

lemma convertCell_step:
  assumes "readable a b c i" and "i < length row0"
  shows "convertCell a b c i (Inr row0) =
     Inr (if b ! (i * 3 + BUFFER) \<noteq> CHR ''|''
          then (row0[i := parsedCell a b c i])[i - 1 := row0 ! (i - 1) OR RIGHT]
          else row0[i := parsedCell a b c i])"
  using assms
  by (cases a)
     (auto simp add: convertCell_def readable_def charAt_def Let_def parsedCell_def goesUp_def
        EMPTY_def)

lemma parsedCell_flags:
  "(parsedCell a b c i AND LEFT \<noteq> 0) = (b ! (i * 3 + BUFFER) \<noteq> CHR ''|'')"
  "(parsedCell a b c i AND DOWN \<noteq> 0) = (c ! (i * 3 + BUFFER + 1) \<noteq> CHR ''_'')"
  "(parsedCell a b c i AND UP \<noteq> 0) = goesUp a i"
  "parsedCell a b c i AND RIGHT = 0"
  by (simp_all add: parsedCell_def UP_def DOWN_def LEFT_def RIGHT_def EMPTY_def)

lemma convertCell_Inl: "convertCell a b c i (Inl e) = Inl e"
  by (simp add: convertCell_def)

lemma convert_loop_fault:
  assumes "i < k" and "\<not> readable a b c i"
  shows "\<exists>e. fold (convertCell a b c) [0..<k] st = Inl e"
  using assms(1)
proof (induction k)
  case 0
  then show ?case by simp
next
  case (Suc k)
  show ?case
  proof (cases "i = k")
    case True
    then show ?thesis using convertCell_fault [OF assms(2)] by simp
  next
    case False
    with Suc obtain e where "fold (convertCell a b c) [0..<k] st = Inl e" by auto
    then show ?thesis by (simp add: convertCell_Inl)
  qed
qed

lemma convert_loop:
  assumes "k \<le> w" and "\<forall>i<k. readable a b c i"
  shows "\<exists>row. fold (convertCell a b c) [0..<k] (Inr (replicate w 0)) = Inr row \<and> length row = w \<and>
     (\<forall>i<k. row ! i =
        (if i + 1 < k \<and> b ! ((i + 1) * 3 + BUFFER) \<noteq> CHR ''|''
         then parsedCell a b c i OR RIGHT else parsedCell a b c i)) \<and>
     (\<forall>i. k \<le> i \<and> i < w \<longrightarrow> row ! i = 0)"
  using assms
proof (induction k)
  case 0
  then show ?case by simp
next
  case (Suc k)
  then obtain row0 where r0: "fold (convertCell a b c) [0..<k] (Inr (replicate w 0)) = Inr row0"
      "length row0 = w"
      "\<And>i. i < k \<Longrightarrow> row0 ! i =
        (if i + 1 < k \<and> b ! ((i + 1) * 3 + BUFFER) \<noteq> CHR ''|''
         then parsedCell a b c i OR RIGHT else parsedCell a b c i)"
      "\<And>i. k \<le> i \<Longrightarrow> i < w \<Longrightarrow> row0 ! i = 0"
    by auto
  have rd: "readable a b c k" using Suc.prems by simp
  have kw: "k < length row0" using Suc.prems r0(2) by simp
  let ?row = "if b ! (k * 3 + BUFFER) \<noteq> CHR ''|''
          then (row0[k := parsedCell a b c k])[k - 1 := row0 ! (k - 1) OR RIGHT]
          else row0[k := parsedCell a b c k]"
  have step: "fold (convertCell a b c) [0..<Suc k] (Inr (replicate w 0)) = Inr ?row"
    using convertCell_step [OF rd kw] r0(1) by simp
  have k0: "b ! (k * 3 + BUFFER) \<noteq> CHR ''|'' \<Longrightarrow> 0 < k"
    using rd by (cases k) (simp_all add: readable_def)
  have "?row ! i =
        (if i + 1 < Suc k \<and> b ! ((i + 1) * 3 + BUFFER) \<noteq> CHR ''|''
         then parsedCell a b c i OR RIGHT else parsedCell a b c i)" if "i < Suc k" for i
  proof (cases "i = k")
    case True
    then show ?thesis using kw k0 by auto
  next
    case False
    with that have ik: "i < k" by simp
    show ?thesis
    proof (cases "i + 1 = k")
      case True
      then have "row0 ! i = parsedCell a b c i" using r0(3) [OF ik] by simp
      then show ?thesis using True kw by auto
    next
      case False
      then have "?row ! i = row0 ! i" using ik by auto
      then show ?thesis using r0(3) [OF ik] False ik by auto
    qed
  qed
  moreover have "?row ! i = 0" if "Suc k \<le> i" "i < w" for i
    using that r0(4) [of i] by auto
  moreover have "length ?row = w" using r0(2) by simp
  ultimately show ?case using step by (metis (no_types, lifting))
qed

lemma readable_all:
  "(\<forall>i<w. readable a b c i) \<longleftrightarrow>
   (w = 0 \<or> (case a of None \<Rightarrow> True | Some a' \<Rightarrow> w \<le> length a') \<and>
      3 * (w - 1) + BUFFER + 1 < length c \<and> 3 * (w - 1) + BUFFER < length b \<and>
      b ! BUFFER = CHR ''|'')"
proof (cases w)
  case 0
  then show ?thesis by simp
next
  case (Suc n)
  have "(\<forall>i<Suc n. readable a b c i) \<longleftrightarrow> readable a b c n \<and> readable a b c 0"
  proof
    assume "\<forall>i<Suc n. readable a b c i"
    then show "readable a b c n \<and> readable a b c 0" by simp
  next
    assume r: "readable a b c n \<and> readable a b c 0"
    show "\<forall>i<Suc n. readable a b c i"
    proof (intro allI impI)
      fix i assume "i < Suc n"
      then have "i \<le> n" by simp
      then show "readable a b c i"
        using r by (cases a) (auto simp add: readable_def)
    qed
  qed
  then show ?thesis
    using Suc by (cases a) (auto simp add: readable_def mult.commute)
qed

lemma convertRow_success:
  "(\<exists>row. convertRow a b c w = Inr row) \<longleftrightarrow> (\<forall>i<w. readable a b c i)"
proof
  assume "\<exists>row. convertRow a b c w = Inr row"
  then obtain row where r: "convertRow a b c w = Inr row" by blast
  show "\<forall>i<w. readable a b c i"
  proof (intro allI impI)
    fix i assume "i < w"
    show "readable a b c i"
    proof (rule ccontr)
      assume "\<not> readable a b c i"
      from convert_loop_fault [OF \<open>i < w\<close> this, of "Inr (replicate w 0)"] r
      show False by (simp add: convertRow_def)
    qed
  qed
next
  assume "\<forall>i<w. readable a b c i"
  then show "\<exists>row. convertRow a b c w = Inr row"
    using convert_loop [of w w a b c] by (auto simp add: convertRow_def)
qed

lemma convertRow_cells:
  assumes "convertRow a b c w = Inr cells"
  shows "length cells = w"
    and "\<And>i. i < w \<Longrightarrow> cells ! i =
        (if i + 1 < w \<and> b ! ((i + 1) * 3 + BUFFER) \<noteq> CHR ''|''
         then parsedCell a b c i OR RIGHT else parsedCell a b c i)"
proof -
  have rd: "\<forall>i<w. readable a b c i" using convertRow_success [of a b c w] assms by blast
  from convert_loop [OF order_refl rd] assms
  have "length cells = w \<and> (\<forall>i<w. cells ! i =
        (if i + 1 < w \<and> b ! ((i + 1) * 3 + BUFFER) \<noteq> CHR ''|''
         then parsedCell a b c i OR RIGHT else parsedCell a b c i))"
    by (auto simp add: convertRow_def)
  then show "length cells = w"
    and "\<And>i. i < w \<Longrightarrow> cells ! i =
        (if i + 1 < w \<and> b ! ((i + 1) * 3 + BUFFER) \<noteq> CHR ''|''
         then parsedCell a b c i OR RIGHT else parsedCell a b c i)"
    by simp_all
qed

text \<open>
  Claim C2, as the specification states it, says that the parser tolerates short lines
  and never leaves its containers. The source has no check of any index: with a line
  \<open>c\<close> that ends before the character of column 0, \<open>convertRow\<close> reads past the end of
  the string; with a character other than \<open>|\<close> at index \<open>BUFFER\<close> of line \<open>b\<close>, column 0
  writes \<open>row[i - 1]\<close>, outside the array.
\<close>

theorem convertRow_counterexample:
  "convertRow None ''     |  |'' ''     |'' 1 = Inl StringIndex \<and>
   convertRow None ''        |'' ''     |__|'' 1 = Inl ArrayIndex"
  by code_simp

text \<open>
  Claim C2, amended: \<open>convertRow\<close> makes no access outside the text lines, the previous
  row or the row it builds, and returns a row of \<open>width\<close> cells, exactly when the lines
  hold every character it reads (line \<open>b\<close> is longer than \<open>3 * (width - 1) + BUFFER\<close>,
  line \<open>c\<close> longer than \<open>3 * (width - 1) + BUFFER + 1\<close>), line \<open>b\<close> has \<open>|\<close> at index
  \<open>BUFFER\<close>, and the previous row, when there is one, has at least \<open>width\<close> cells (or
  \<open>width\<close> is 0). On every other input it makes such an access: nothing is clamped and
  no missing character is taken for a wall.
\<close>

theorem convertRow_in_bounds:
  "(\<exists>row. convertRow a b c w = Inr row \<and> length row = w) \<longleftrightarrow>
   (w = 0 \<or> (case a of None \<Rightarrow> True | Some a' \<Rightarrow> w \<le> length a') \<and>
      3 * (w - 1) + BUFFER + 1 < length c \<and> 3 * (w - 1) + BUFFER < length b \<and>
      b ! BUFFER = CHR ''|'')"
proof -
  have "(\<exists>row. convertRow a b c w = Inr row \<and> length row = w) \<longleftrightarrow>
        (\<exists>row. convertRow a b c w = Inr row)"
    using convertRow_cells(1) by blast
  then show ?thesis by (simp only: convertRow_success readable_all)
qed

theorem convertRow_in_bounds_witness:
  "convertRow (Some [2, 0, 0]) ''     |        |'' ''     |__|  |__|'' 3 = Inr [9, 14, 4] \<and>
   (\<exists>row. convertRow (Some [2, 0, 0]) ''     |        |'' ''     |__|  |__|'' 3 = Inr row \<and>
      length row = 3)"
proof -
  have "(3::nat) = 0 \<or> (case Some [2, 0, 0 :: 16 word] of None \<Rightarrow> True | Some a' \<Rightarrow> 3 \<le> length a') \<and>
      3 * (3 - 1) + BUFFER + 1 < length ''     |__|  |__|'' \<and>
      3 * (3 - 1) + BUFFER < length ''     |        |'' \<and>
      ''     |        |'' ! BUFFER = CHR ''|''"
    by (simp add: BUFFER_def)
  then have "\<exists>row. convertRow (Some [2, 0, 0]) ''     |        |'' ''     |__|  |__|'' 3 = Inr row \<and>
      length row = 3"
    by (simp only: convertRow_in_bounds)
  moreover have "convertRow (Some [2, 0, 0]) ''     |        |'' ''     |__|  |__|'' 3 = Inr [9, 14, 4]"
    by code_simp
  ultimately show ?thesis by blast
qed

text \<open>
  Claim C9: in every row that \<open>convertRow\<close> returns, for every column \<open>i\<close> with
  \<open>1 \<le> i < width\<close>, cell \<open>i\<close> has \<open>LEFT\<close> exactly when cell \<open>i - 1\<close> has \<open>RIGHT\<close>: both
  are set from the one separator character \<open>b[i * 3 + BUFFER]\<close>. The last cell never has
  \<open>RIGHT\<close>.
\<close>

theorem convertRow_left_right:
  assumes "convertRow a b c w = Inr cells" and "1 \<le> i" and "i < w"
  shows "(cells ! i AND LEFT \<noteq> 0) = (cells ! (i - 1) AND RIGHT \<noteq> 0) \<and>
         (cells ! i AND LEFT \<noteq> 0) = (b ! (i * 3 + BUFFER) \<noteq> CHR ''|'') \<and>
         cells ! (w - 1) AND RIGHT = 0"
proof -
  have cell: "\<And>i. i < w \<Longrightarrow> cells ! i =
        (if i + 1 < w \<and> b ! ((i + 1) * 3 + BUFFER) \<noteq> CHR ''|''
         then parsedCell a b c i OR RIGHT else parsedCell a b c i)"
    using convertRow_cells(2) [OF assms(1)] by blast
  have L: "(cells ! j AND LEFT \<noteq> 0) = (b ! (j * 3 + BUFFER) \<noteq> CHR ''|'')" if "j < w" for j
    using cell [OF that] parsedCell_flags(1) [of a b c j]
    by (auto simp add: or_and_other flags_disjoint16)
  have R: "(cells ! j AND RIGHT \<noteq> 0) = (j + 1 < w \<and> b ! ((j + 1) * 3 + BUFFER) \<noteq> CHR ''|'')"
    if "j < w" for j
    using cell [OF that] parsedCell_flags(4) [of a b c j]
    by (auto simp add: or_and_same flags_nonzero16)
  have "i - 1 < w" "i - 1 + 1 = i" using assms(2,3) by simp_all
  then have "(cells ! (i - 1) AND RIGHT \<noteq> 0) = (b ! (i * 3 + BUFFER) \<noteq> CHR ''|'')"
    using R [of "i - 1"] assms(3) by simp
  moreover have "cells ! (w - 1) AND RIGHT = 0" using R [of "w - 1"] assms(3) by simp
  ultimately show ?thesis using L [OF assms(3)] by simp
qed

theorem convertRow_left_right_witness:
  "convertRow None ''     |  |     |'' ''     |__|  |__|'' 3 = Inr [0, 10, 4] \<and>
   ([0, 10, 4 :: 16 word] ! 1 AND LEFT \<noteq> 0) = ([0, 10, 4 :: 16 word] ! (1 - 1) AND RIGHT \<noteq> 0) \<and>
   [0, 10, 4 :: 16 word] ! 1 AND LEFT = 0 \<and>
   ([0, 10, 4 :: 16 word] ! 2 AND LEFT \<noteq> 0) = ([0, 10, 4 :: 16 word] ! (2 - 1) AND RIGHT \<noteq> 0) \<and>
   [0, 10, 4 :: 16 word] ! 2 AND LEFT \<noteq> 0"
proof -
  have c: "convertRow None ''     |  |     |'' ''     |__|  |__|'' 3 = Inr [0, 10, 4]"
    by code_simp
  have "([0, 10, 4 :: 16 word] ! 1 AND LEFT \<noteq> 0) = ([0, 10, 4 :: 16 word] ! (1 - 1) AND RIGHT \<noteq> 0)"
    using convertRow_left_right [OF c, of 1] by simp
  moreover
  have "([0, 10, 4 :: 16 word] ! 2 AND LEFT \<noteq> 0) = ([0, 10, 4 :: 16 word] ! (2 - 1) AND RIGHT \<noteq> 0)"
    using convertRow_left_right [OF c, of 2] by simp
  moreover have "[0, 10, 4 :: 16 word] ! 1 AND LEFT = 0" "[0, 10, 4 :: 16 word] ! 2 AND LEFT \<noteq> 0"
    by (simp_all add: LEFT_def)
  ultimately show ?thesis using c by simp
qed

text \<open>
  The example in the comment above \<open>convertRow\<close> in the source, with the first two
  lines of the maze in the file's header: the model returns the row the comment gives.
\<close>

lemma convertRow_documented_example:
  "convertRow None ''     |     |        |        |'' ''     |__   |_____   |  ______|'' 8 =
     Inr [8, 6, 8, 12, 6, 10, 12, 4]"
  by code_simp

section \<open>Solver: the search\<close>

subsection \<open>Counting unchecked cells\<close>

lemma filter_update_count:
  assumes "x < length r" and "P (r ! x)" and "\<not> P v"
  shows "length (filter P (r[x := v])) + 1 = length (filter P r)"
proof -
  define a where "a = take x r"
  define b where "b = drop (Suc x) r"
  have r: "r = a @ r ! x # b"
    unfolding a_def b_def using assms(1) by (rule id_take_nth_drop)
  have r': "r[x := v] = a @ v # b"
    unfolding a_def b_def using assms(1) by (rule upd_conv_take_nth_drop)
  have A: "length (filter P r) = length (filter P a) + 1 + length (filter P b)"
    by (subst r) (use assms(2) in simp)
  have B: "length (filter P (r[x := v])) = length (filter P a) + length (filter P b)"
    by (subst r') (use assms(3) in simp)
  show ?thesis using A B by simp
qed

lemma uncheckedCells_setChecked:
  assumes "cellAt m x y = Some c" and "c AND CHECKED = 0"
  shows "uncheckedCells (setChecked m x y) + 1 = uncheckedCells m"
proof -
  let ?P = "\<lambda>c :: 16 word. c AND CHECKED = 0"
  let ?cnt = "\<lambda>r. length (filter ?P r)"
  let ?rows = "rows_m m"
  let ?r = "?rows ! unat y"
  have y: "unat y < length ?rows" and x: "unat x < length ?r" and c: "?r ! unat x = c"
    using assms(1) by (simp_all add: cellAt_def split: if_splits)
  have nc: "\<not> ?P (c OR CHECKED)" by (simp add: or_and_same flags_nonzero16)
  have r': "?cnt (?r[unat x := c OR CHECKED]) + 1 = ?cnt ?r"
    using filter_update_count [of "unat x" ?r ?P "c OR CHECKED"] x c assms(2) nc by simp
  have "?cnt ?r \<le> sum_list (map ?cnt ?rows)"
    using y by (simp add: member_le_sum_list)
  moreover have "sum_list (map ?cnt (?rows[unat y := ?r[unat x := c OR CHECKED]])) =
      sum_list (map ?cnt ?rows) + ?cnt (?r[unat x := c OR CHECKED]) - ?cnt ?r"
    using y by (simp add: map_update sum_list_update)
  ultimately show ?thesis
    using r' c by (simp add: uncheckedCells_def setChecked_def)
qed

subsection \<open>The CHECKED flag\<close>

lemma cellAt_setChecked:
  assumes "cellAt m x y = Some c"
  shows "cellAt (setChecked m x y) x' y' =
     (if x' = x \<and> y' = y then Some (c OR CHECKED) else cellAt m x' y')"
proof -
  have y: "unat y < length (rows_m m)" and x: "unat x < length (rows_m m ! unat y)"
    and c: "rows_m m ! unat y ! unat x = c"
    using assms by (simp_all add: cellAt_def split: if_splits)
  show ?thesis
  proof (cases "y' = y")
    case True
    have "unat x' \<noteq> unat x" if "x' \<noteq> x" using that by (simp add: word_unat_eq_iff)
    then show ?thesis
      using True x y c by (auto simp add: cellAt_def setChecked_def nth_list_update)
  next
    case False
    then have "unat y' \<noteq> unat y" by (simp add: word_unat_eq_iff)
    then show ?thesis
      using False by (simp add: cellAt_def setChecked_def nth_list_update)
  qed
qed

lemma rows_setChecked:
  "map length (rows_m (setChecked m x y)) = map length (rows_m m)"
  "destX (setChecked m x y) = destX m" "destY (setChecked m x y) = destY m"
  "list_m (setChecked m x y) = list_m m"
  by (cases "unat y < length (rows_m m)";
      simp add: setChecked_def map_update list_update_same_conv list_update_beyond)+

lemma searched_refl: "searched m m []"
  by (simp add: searched_def)

lemma searched_trans:
  assumes "searched m m1 t1" and "searched m1 m2 t2"
  shows "searched m m2 (t1 @ t2)"
proof -
  have a: "\<And>p. isChecked m p \<Longrightarrow> isChecked m1 p" "\<And>p. isChecked m1 p \<Longrightarrow> isChecked m2 p"
    "\<And>p. p \<in> set t1 \<Longrightarrow> \<not> isChecked m p \<and> isChecked m1 p"
    "\<And>p. p \<in> set t2 \<Longrightarrow> \<not> isChecked m1 p \<and> isChecked m2 p"
    using assms unfolding searched_def by blast+
  have "set t1 \<inter> set t2 = {}" using a(3,4) by blast
  moreover have "\<forall>p\<in>set (t1 @ t2). \<not> isChecked m p \<and> isChecked m2 p"
    using a by (metis Un_iff set_append)
  moreover have "\<forall>p. isChecked m p \<longrightarrow> isChecked m2 p" using a(1,2) by blast
  moreover have "map length (rows_m m2) = map length (rows_m m)" "destX m2 = destX m"
    "destY m2 = destY m" "uncheckedCells m2 + length (t1 @ t2) = uncheckedCells m"
    "distinct t1" "distinct t2"
    using assms unfolding searched_def by simp_all
  ultimately show ?thesis unfolding searched_def by simp
qed

lemma searched_setChecked:
  assumes "cellAt m x y = Some c" and "c AND CHECKED = 0"
  shows "searched m (setChecked m x y) [(x, y)]"
proof -
  have "isChecked (setChecked m x y) p" if "isChecked m p" for p
    using that cellAt_setChecked [OF assms(1), of "fst p" "snd p"]
    by (auto simp add: isChecked_def or_and_same flags_nonzero16)
  moreover have "\<not> isChecked m (x, y)" using assms by (simp add: isChecked_def)
  moreover have "isChecked (setChecked m x y) (x, y)"
    using cellAt_setChecked [OF assms(1), of x y]
    by (simp add: isChecked_def or_and_same flags_nonzero16)
  ultimately show ?thesis
    using uncheckedCells_setChecked [OF assms] by (simp add: searched_def rows_setChecked)
qed

lemma solutionCell_rows:
  assumes "solutionCell m x y = Inr m'"
  shows "rows_m m' = rows_m m" "destX m' = destX m" "destY m' = destY m"
  using assms by (auto simp add: solutionCell_def Let_def split: if_splits)

lemma searched_solutionCell:
  assumes "solutionCell m x y = Inr m'"
  shows "searched m m' []"
  using solutionCell_rows [OF assms]
  by (simp add: searched_def uncheckedCells_def isChecked_def cellAt_def)

subsection \<open>The guarded calls\<close>

lemma tryDir_simps:
  "tryDir p call None = None"
  "tryDir p call (Some (Inl e)) = Some (Inl e)"
  "tryDir p call (Some (Inr (True, m, t))) = Some (Inr (True, m, t))"
  "tryDir False call (Some (Inr (f, m, t))) = Some (Inr (f, m, t))"
  "tryDir True call (Some (Inr (False, m, t))) =
     (case call m of None \<Rightarrow> None | Some (Inl e) \<Rightarrow> Some (Inl e)
      | Some (Inr (f', m', t')) \<Rightarrow> Some (Inr (f', m', t @ t')))"
  by (simp_all add: tryDir_def)

lemma tryDir_ok:
  assumes "resultOk m0 acc"
    and "\<And>ma f m' t. call ma = Some (Inr (f, m', t)) \<Longrightarrow> searched ma m' t"
  shows "resultOk m0 (tryDir p call acc)"
proof (cases acc)
  case None
  then show ?thesis by (simp add: tryDir_simps resultOk_def)
next
  case (Some r)
  show ?thesis
  proof (cases r)
    case (Inl e)
    with Some show ?thesis by (simp add: tryDir_simps resultOk_def)
  next
    case (Inr v)
    obtain f m t where v: "v = (f, m, t)" by (cases v)
    have base: "searched m0 m t" using assms(1) Some Inr v by (simp add: resultOk_def)
    show ?thesis
    proof (cases "\<not> f \<and> p")
      case False
      then have "tryDir p call acc = acc"
        using Some Inr v by (auto simp add: tryDir_def)
      with assms(1) show ?thesis by simp
    next
      case True
      then have e: "tryDir p call acc =
          (case call m of None \<Rightarrow> None | Some (Inl e) \<Rightarrow> Some (Inl e)
           | Some (Inr (f', m', t')) \<Rightarrow> Some (Inr (f', m', t @ t')))"
        using Some Inr v by (simp add: tryDir_simps)
      show ?thesis
        unfolding resultOk_def e
        using base assms(2) [of m]
        by (auto split: option.splits sum.splits intro: searched_trans)
    qed
  qed
qed

lemma markIfFound_ok:
  assumes "resultOk m0 acc"
  shows "resultOk m0 (markIfFound x y acc)"
  unfolding resultOk_def
proof (intro allI impI)
  fix found m' entered
  assume r: "markIfFound x y acc = Some (Inr (found, m', entered))"
  then obtain f m where acc: "acc = Some (Inr (f, m, entered))"
    by (auto simp add: markIfFound_def split: option.splits sum.splits if_splits)
  then have base: "searched m0 m entered" using assms by (simp add: resultOk_def)
  show "searched m0 m' entered"
  proof (cases f)
    case True
    then have "solutionCell m x y = Inr m'"
      using r acc by (auto simp add: markIfFound_def split: sum.splits)
    from searched_trans [OF base searched_solutionCell [OF this]] show ?thesis by simp
  next
    case False
    then have "m' = m" using r acc by (simp add: markIfFound_def)
    with base show ?thesis by simp
  qed
qed

lemma solveMaze_searched:
  "solveMaze n m x y from = Some (Inr (found, m', entered)) \<Longrightarrow> searched m m' entered"
proof (induction n arbitrary: m x y "from" found m' entered)
  case 0
  then show ?case by simp
next
  case (Suc n)
  show ?case
  proof (cases "cellAt m x y")
    case None
    with Suc.prems show ?thesis by simp
  next
    case (Some cell)
    show ?thesis
    proof (cases "cell AND CHECKED \<noteq> 0")
      case True
      with Suc.prems Some show ?thesis by (simp add: searched_refl)
    next
      case False
      then have c0: "cell AND CHECKED = 0" by simp
      let ?m1 = "setChecked m x y"
      have s1: "searched m ?m1 [(x, y)]" using searched_setChecked [OF Some c0] .
      show ?thesis
      proof (cases "x = destX ?m1 \<and> y = destY ?m1")
        case True
        with Suc.prems Some c0 obtain m2 where "solutionCell ?m1 x y = Inr m2"
          and "m' = m2" "entered = [(x, y)]"
          by (auto simp add: Let_def split: sum.splits)
        then show ?thesis
          using searched_trans [OF s1 searched_solutionCell [of ?m1 x y m2]] by simp
      next
        case False
        let ?r0 = "Some (Inr (False, ?m1, [(x, y)])) :: result"
        let ?r1 = "tryDir (from \<noteq> RIGHT \<and> cell AND LEFT \<noteq> 0)
                       (\<lambda>m'. solveMaze n m' (x - 1) y LEFT) ?r0"
        let ?r2 = "tryDir (from \<noteq> DOWN \<and> cell AND UP \<noteq> 0)
                       (\<lambda>m'. solveMaze n m' x (y - 1) UP) ?r1"
        let ?r3 = "tryDir (from \<noteq> UP \<and> cell AND DOWN \<noteq> 0)
                       (\<lambda>m'. solveMaze n m' x (y + 1) DOWN) ?r2"
        let ?r4 = "tryDir (from \<noteq> LEFT \<and> cell AND RIGHT \<noteq> 0)
                       (\<lambda>m'. solveMaze n m' (x + 1) y RIGHT) ?r3"
        have e: "solveMaze (Suc n) m x y from = markIfFound x y ?r4"
          using Some c0 False by (auto simp add: Let_def)
        have 0: "resultOk m ?r0" using s1 by (simp add: resultOk_def)
        have 1: "resultOk m ?r1" by (rule tryDir_ok [OF 0]) (rule Suc.IH)
        have 2: "resultOk m ?r2" by (rule tryDir_ok [OF 1]) (rule Suc.IH)
        have 3: "resultOk m ?r3" by (rule tryDir_ok [OF 2]) (rule Suc.IH)
        have 4: "resultOk m ?r4" by (rule tryDir_ok [OF 3]) (rule Suc.IH)
        from markIfFound_ok [OF 4, of x y] Suc.prems show ?thesis
          by (simp only: e resultOk_def)
      qed
    qed
  qed
qed

subsection \<open>Termination\<close>

lemma tryDir_within:
  assumes "resultWithin n acc"
    and "\<And>ma. uncheckedCells ma < n \<Longrightarrow> call ma \<noteq> None"
    and "\<And>ma f m' t. call ma = Some (Inr (f, m', t)) \<Longrightarrow> searched ma m' t"
  shows "resultWithin n (tryDir p call acc)"
proof -
  from assms(1) obtain r where acc: "acc = Some r" by (auto simp add: resultWithin_def)
  show ?thesis
  proof (cases r)
    case (Inl e)
    with acc show ?thesis by (simp add: tryDir_simps resultWithin_def)
  next
    case (Inr v)
    obtain f m t where v: "v = (f, m, t)" by (cases v)
    have less: "uncheckedCells m < n" using assms(1) acc Inr v by (simp add: resultWithin_def)
    show ?thesis
    proof (cases "\<not> f \<and> p")
      case False
      then have "tryDir p call acc = acc"
        using acc Inr v by (auto simp add: tryDir_def)
      with assms(1) show ?thesis by simp
    next
      case True
      then have e: "tryDir p call acc =
          (case call m of None \<Rightarrow> None | Some (Inl e) \<Rightarrow> Some (Inl e)
           | Some (Inr (f', m', t')) \<Rightarrow> Some (Inr (f', m', t @ t')))"
        using acc Inr v by (simp add: tryDir_simps)
      have some: "call m \<noteq> None" using assms(2) [OF less] .
      have "uncheckedCells m' < n" if "call m = Some (Inr (f', m', t'))" for f' m' t'
        using assms(3) [OF that] less by (simp add: searched_def)
      then show ?thesis
        unfolding resultWithin_def e using some
        by (auto split: option.splits sum.splits)
    qed
  qed
qed

lemma markIfFound_some: "acc \<noteq> None \<Longrightarrow> markIfFound x y acc \<noteq> None"
  by (auto simp add: markIfFound_def split: option.splits sum.splits)

lemma solveMaze_total:
  "uncheckedCells m < n \<Longrightarrow> solveMaze n m x y from \<noteq> None"
proof (induction n arbitrary: m x y "from")
  case 0
  then show ?case by simp
next
  case (Suc n)
  show ?case
  proof (cases "cellAt m x y")
    case None
    then show ?thesis by simp
  next
    case (Some cell)
    show ?thesis
    proof (cases "cell AND CHECKED \<noteq> 0")
      case True
      with Some show ?thesis by simp
    next
      case False
      then have c0: "cell AND CHECKED = 0" by simp
      let ?m1 = "setChecked m x y"
      have less: "uncheckedCells ?m1 < n"
        using uncheckedCells_setChecked [OF Some c0] Suc.prems by simp
      show ?thesis
      proof (cases "x = destX ?m1 \<and> y = destY ?m1")
        case True
        with Some c0 show ?thesis by (auto simp add: Let_def split: sum.splits)
      next
        case False
        let ?r0 = "Some (Inr (False, ?m1, [(x, y)])) :: result"
        let ?r1 = "tryDir (from \<noteq> RIGHT \<and> cell AND LEFT \<noteq> 0)
                       (\<lambda>m'. solveMaze n m' (x - 1) y LEFT) ?r0"
        let ?r2 = "tryDir (from \<noteq> DOWN \<and> cell AND UP \<noteq> 0)
                       (\<lambda>m'. solveMaze n m' x (y - 1) UP) ?r1"
        let ?r3 = "tryDir (from \<noteq> UP \<and> cell AND DOWN \<noteq> 0)
                       (\<lambda>m'. solveMaze n m' x (y + 1) DOWN) ?r2"
        let ?r4 = "tryDir (from \<noteq> LEFT \<and> cell AND RIGHT \<noteq> 0)
                       (\<lambda>m'. solveMaze n m' (x + 1) y RIGHT) ?r3"
        have e: "solveMaze (Suc n) m x y from = markIfFound x y ?r4"
          using Some c0 False by (auto simp add: Let_def)
        have 0: "resultWithin n ?r0" using less by (simp add: resultWithin_def)
        have 1: "resultWithin n ?r1"
          by (rule tryDir_within [OF 0]) (rule Suc.IH, assumption, rule solveMaze_searched)
        have 2: "resultWithin n ?r2"
          by (rule tryDir_within [OF 1]) (rule Suc.IH, assumption, rule solveMaze_searched)
        have 3: "resultWithin n ?r3"
          by (rule tryDir_within [OF 2]) (rule Suc.IH, assumption, rule solveMaze_searched)
        have 4: "resultWithin n ?r4"
          by (rule tryDir_within [OF 3]) (rule Suc.IH, assumption, rule solveMaze_searched)
        then have "?r4 \<noteq> None" by (simp add: resultWithin_def)
        then show ?thesis unfolding e by (rule markIfFound_some)
      qed
    qed
  qed
qed

lemma tryDir_head:
  assumes "\<And>f m t. acc = Some (Inr (f, m, t)) \<Longrightarrow> \<exists>rest. t = p # rest"
    and "tryDir q call acc = Some (Inr (f, m, t))"
  shows "\<exists>rest. t = p # rest"
proof -
  from assms(2) obtain f0 m0 t0 where acc: "acc = Some (Inr (f0, m0, t0))"
    by (auto simp add: tryDir_def split: option.splits sum.splits)
  from assms(1) [OF this] obtain rest where "t0 = p # rest" by blast
  with assms(2) acc show ?thesis
    by (auto simp add: tryDir_def split: option.splits sum.splits if_splits)
qed

lemma solveMaze_enters:
  assumes "solveMaze n m x y from = Some (Inr (found, m', entered))" and "\<not> isChecked m (x, y)"
  shows "\<exists>rest. entered = (x, y) # rest"
proof (cases n)
  case 0
  with assms(1) show ?thesis by simp
next
  case (Suc k)
  from assms(1) Suc obtain cell where cell: "cellAt m x y = Some cell"
    by (cases "cellAt m x y") simp_all
  then have c0: "cell AND CHECKED = 0" using assms(2) by (simp add: isChecked_def)
  let ?m1 = "setChecked m x y"
  show ?thesis
  proof (cases "x = destX ?m1 \<and> y = destY ?m1")
    case True
    with assms(1) Suc cell c0 show ?thesis by (auto simp add: Let_def split: sum.splits)
  next
    case False
    let ?r0 = "Some (Inr (False, ?m1, [(x, y)])) :: result"
    let ?r1 = "tryDir (from \<noteq> RIGHT \<and> cell AND LEFT \<noteq> 0)
                   (\<lambda>m'. solveMaze k m' (x - 1) y LEFT) ?r0"
    let ?r2 = "tryDir (from \<noteq> DOWN \<and> cell AND UP \<noteq> 0)
                   (\<lambda>m'. solveMaze k m' x (y - 1) UP) ?r1"
    let ?r3 = "tryDir (from \<noteq> UP \<and> cell AND DOWN \<noteq> 0)
                   (\<lambda>m'. solveMaze k m' x (y + 1) DOWN) ?r2"
    let ?r4 = "tryDir (from \<noteq> LEFT \<and> cell AND RIGHT \<noteq> 0)
                   (\<lambda>m'. solveMaze k m' (x + 1) y RIGHT) ?r3"
    have e: "solveMaze (Suc k) m x y from = markIfFound x y ?r4"
      using cell c0 False by (auto simp add: Let_def)
    have 1: "\<exists>rest. t = (x, y) # rest" if "?r1 = Some (Inr (f, ma, t))" for f ma t
      by (rule tryDir_head [OF _ that]) simp
    have 2: "\<exists>rest. t = (x, y) # rest" if "?r2 = Some (Inr (f, ma, t))" for f ma t
      by (rule tryDir_head [OF _ that]) (rule 1)
    have 3: "\<exists>rest. t = (x, y) # rest" if "?r3 = Some (Inr (f, ma, t))" for f ma t
      by (rule tryDir_head [OF _ that]) (rule 2)
    have 4: "\<exists>rest. t = (x, y) # rest" if "?r4 = Some (Inr (f, ma, t))" for f ma t
      by (rule tryDir_head [OF _ that]) (rule 3)
    from assms(1) Suc e obtain f ma where "?r4 = Some (Inr (f, ma, entered))"
      by (auto simp add: markIfFound_def split: option.splits sum.splits if_splits)
    then show ?thesis by (rule 4)
  qed
qed

text \<open>
  Claim C7: on every grid, with or without cycles, the search terminates: a call with
  more fuel than the grid has unflagged cells returns (a result, or the access outside
  the grid that stopped it), whatever the cell and the direction. A call on a cell
  that is already flagged returns failure at once and changes nothing. A call that
  returns has flagged every cell it entered, the cell it was called on first, whether
  it found the destination or not; it entered no cell twice and none that was flagged
  before; it cleared no flag; and it entered exactly as many cells as the number of
  unflagged cells went down.
\<close>

theorem solveMaze_terminates:
  "(uncheckedCells m < fuel \<longrightarrow> solveMaze fuel m x y from \<noteq> None) \<and>
   (isChecked m (x, y) \<longrightarrow> solveMaze (Suc fuel) m x y from = Some (Inr (False, m, []))) \<and>
   (solveMaze fuel m x y from = Some (Inr (found, m', entered)) \<longrightarrow>
      distinct entered \<and>
      (\<forall>p\<in>set entered. \<not> isChecked m p \<and> isChecked m' p) \<and>
      (\<forall>p. isChecked m p \<longrightarrow> isChecked m' p) \<and>
      uncheckedCells m' + length entered = uncheckedCells m \<and>
      (\<not> isChecked m (x, y) \<longrightarrow> isChecked m' (x, y) \<and> hd entered = (x, y)))"
proof (intro conjI impI)
  assume "uncheckedCells m < fuel"
  then show "solveMaze fuel m x y from \<noteq> None" by (rule solveMaze_total)
next
  assume "isChecked m (x, y)"
  then show "solveMaze (Suc fuel) m x y from = Some (Inr (False, m, []))"
    by (auto simp add: isChecked_def split: option.splits)
next
  assume r: "solveMaze fuel m x y from = Some (Inr (found, m', entered))"
  have s: "searched m m' entered" using r by (rule solveMaze_searched)
  show "distinct entered" using s by (simp add: searched_def)
  show "\<forall>p\<in>set entered. \<not> isChecked m p \<and> isChecked m' p" using s by (simp add: searched_def)
  show "\<forall>p. isChecked m p \<longrightarrow> isChecked m' p" using s unfolding searched_def by blast
  show "uncheckedCells m' + length entered = uncheckedCells m" using s by (simp add: searched_def)
  assume "\<not> isChecked m (x, y)"
  from solveMaze_enters [OF r this] obtain rest where e: "entered = (x, y) # rest" by blast
  then show "isChecked m' (x, y)" using s by (simp add: searched_def)
  from e show "hd entered = (x, y)" by simp
qed

text \<open>More fuel never changes a result.\<close>

lemma tryDir_mono:
  assumes "\<And>ma r. call ma = Some r \<Longrightarrow> call' ma = Some r"
    and "tryDir p call acc = Some r"
  shows "tryDir p call' acc = Some r"
  using assms(2) assms(1)
  by (auto simp add: tryDir_def split: option.splits sum.splits if_splits)

lemma solveMaze_more_fuel:
  "solveMaze n m x y from = Some r \<Longrightarrow> solveMaze (Suc n) m x y from = Some r"
proof (induction n arbitrary: m x y "from" r)
  case 0
  then show ?case by simp
next
  case (Suc n)
  show ?case
  proof (cases "cellAt m x y")
    case None
    with Suc.prems show ?thesis by simp
  next
    case (Some cell)
    show ?thesis
    proof (cases "cell AND CHECKED \<noteq> 0 \<or> (x = destX (setChecked m x y) \<and> y = destY (setChecked m x y))")
      case True
      with Suc.prems Some show ?thesis by (auto simp add: Let_def)
    next
      case False
      let ?m1 = "setChecked m x y"
      let ?r0 = "Some (Inr (False, ?m1, [(x, y)])) :: result"
      let ?c1 = "\<lambda>k m'. solveMaze k m' (x - 1) y LEFT"
      let ?c2 = "\<lambda>k m'. solveMaze k m' x (y - 1) UP"
      let ?c3 = "\<lambda>k m'. solveMaze k m' x (y + 1) DOWN"
      let ?c4 = "\<lambda>k m'. solveMaze k m' (x + 1) y RIGHT"
      let ?r4 = "\<lambda>k. tryDir (from \<noteq> LEFT \<and> cell AND RIGHT \<noteq> 0) (?c4 k)
                   (tryDir (from \<noteq> UP \<and> cell AND DOWN \<noteq> 0) (?c3 k)
                     (tryDir (from \<noteq> DOWN \<and> cell AND UP \<noteq> 0) (?c2 k)
                       (tryDir (from \<noteq> RIGHT \<and> cell AND LEFT \<noteq> 0) (?c1 k) ?r0)))"
      have e: "solveMaze (Suc k) m x y from = markIfFound x y (?r4 k)" for k
        using Some False by (auto simp add: Let_def)
      from Suc.prems have mk: "markIfFound x y (?r4 n) = Some r" by (simp only: e)
      then obtain r4 where r4: "?r4 n = Some r4"
        by (cases "?r4 n") (simp_all add: markIfFound_def)
      obtain r3 where r3: "tryDir (from \<noteq> UP \<and> cell AND DOWN \<noteq> 0) (?c3 n)
                     (tryDir (from \<noteq> DOWN \<and> cell AND UP \<noteq> 0) (?c2 n)
                       (tryDir (from \<noteq> RIGHT \<and> cell AND LEFT \<noteq> 0) (?c1 n) ?r0)) = Some r3"
        using r4 by (cases "tryDir (from \<noteq> UP \<and> cell AND DOWN \<noteq> 0) (?c3 n)
                     (tryDir (from \<noteq> DOWN \<and> cell AND UP \<noteq> 0) (?c2 n)
                       (tryDir (from \<noteq> RIGHT \<and> cell AND LEFT \<noteq> 0) (?c1 n) ?r0))")
          (simp_all add: tryDir_simps)
      obtain r2 where r2: "tryDir (from \<noteq> DOWN \<and> cell AND UP \<noteq> 0) (?c2 n)
                       (tryDir (from \<noteq> RIGHT \<and> cell AND LEFT \<noteq> 0) (?c1 n) ?r0) = Some r2"
        using r3 by (cases "tryDir (from \<noteq> DOWN \<and> cell AND UP \<noteq> 0) (?c2 n)
                       (tryDir (from \<noteq> RIGHT \<and> cell AND LEFT \<noteq> 0) (?c1 n) ?r0)")
          (simp_all add: tryDir_simps)
      obtain r1 where r1: "tryDir (from \<noteq> RIGHT \<and> cell AND LEFT \<noteq> 0) (?c1 n) ?r0 = Some r1"
        using r2 by (cases "tryDir (from \<noteq> RIGHT \<and> cell AND LEFT \<noteq> 0) (?c1 n) ?r0")
          (simp_all add: tryDir_simps)
      have 1: "tryDir (from \<noteq> RIGHT \<and> cell AND LEFT \<noteq> 0) (?c1 (Suc n)) ?r0 = Some r1"
        by (rule tryDir_mono [OF _ r1]) (rule Suc.IH)
      have 2: "tryDir (from \<noteq> DOWN \<and> cell AND UP \<noteq> 0) (?c2 (Suc n)) (Some r1) = Some r2"
        by (rule tryDir_mono [OF _ r2 [unfolded r1]]) (rule Suc.IH)
      have 3: "tryDir (from \<noteq> UP \<and> cell AND DOWN \<noteq> 0) (?c3 (Suc n)) (Some r2) = Some r3"
        by (rule tryDir_mono [OF _ r3 [unfolded r2]]) (rule Suc.IH)
      have 4: "tryDir (from \<noteq> LEFT \<and> cell AND RIGHT \<noteq> 0) (?c4 (Suc n)) (Some r3) = Some r4"
        by (rule tryDir_mono [OF _ r4 [unfolded r3]]) (rule Suc.IH)
      have "?r4 (Suc n) = Some r4" by (simp only: 1 2 3 4)
      then have "markIfFound x y (?r4 (Suc n)) = Some r" using mk by (simp only: r4)
      then show ?thesis by (simp only: e)
    qed
  qed
qed

lemma solveMaze_fuel_mono:
  "solveMaze n m x y from = Some r \<Longrightarrow> n \<le> k \<Longrightarrow> solveMaze k m x y from = Some r"
proof (induction k)
  case 0
  then show ?case by simp
next
  case (Suc k)
  show ?case
  proof (cases "n = Suc k")
    case True
    with Suc.prems show ?thesis by simp
  next
    case False
    with Suc.prems have "n \<le> k" by simp
    with Suc have "solveMaze k m x y from = Some r" by simp
    then show ?thesis by (rule solveMaze_more_fuel)
  qed
qed

subsection \<open>Evaluating the search on a given maze\<close>

text \<open>
  Rules for running \<open>solveMaze\<close> on a concrete maze with the simplifier: the function
  is unfolded one call at a time, and a guarded call is looked into only once the
  search so far is known.
\<close>

lemma tryDir_cong: "p = p' \<Longrightarrow> acc = acc' \<Longrightarrow> tryDir p call acc = tryDir p' call acc'"
  by simp

lemma solveMaze_unfold:
  "0 < n \<Longrightarrow> solveMaze n m x y from = 
     (case cellAt m x y of None \<Rightarrow> Some (Inl ArrayIndex)
      | Some cell \<Rightarrow>
        if cell AND CHECKED \<noteq> 0 then Some (Inr (False, m, []))
        else
          let m1 = setChecked m x y in
          if x = destX m1 \<and> y = destY m1 then
            (case solutionCell m1 x y of Inl e \<Rightarrow> Some (Inl e)
             | Inr m2 \<Rightarrow> Some (Inr (True, m2, [(x, y)])))
          else
            markIfFound x y 
              (tryDir (from \<noteq> LEFT \<and> cell AND RIGHT \<noteq> 0)
                       (\<lambda>m'. solveMaze (n - 1) m' (x + 1) y RIGHT)
               (tryDir (from \<noteq> UP \<and> cell AND DOWN \<noteq> 0)
                       (\<lambda>m'. solveMaze (n - 1) m' x (y + 1) DOWN)
                (tryDir (from \<noteq> DOWN \<and> cell AND UP \<noteq> 0)
                       (\<lambda>m'. solveMaze (n - 1) m' x (y - 1) UP)
                 (tryDir (from \<noteq> RIGHT \<and> cell AND LEFT \<noteq> 0)
                       (\<lambda>m'. solveMaze (n - 1) m' (x - 1) y LEFT) 
                    (Some (Inr (False, m1, [(x, y)]))))))))"
  by (cases n) (auto simp add: Let_def split: option.splits)

lemma list_update_numeral: "(x # xs)[numeral k := v] = x # xs[pred_numeral k := v]"
  by (simp add: numeral_eq_Suc)

lemmas eval_solve = solveMaze_unfold cellAt_def setChecked_def tryDir_simps markIfFound_def
  solutionCell_def setChar_def PATHMARKER_def BUFFER_def list_update_numeral
  EMPTY_def UP_def DOWN_def LEFT_def RIGHT_def CHECKED_def

theorem solveMaze_terminates_witness:
  "uncheckedCells \<lparr>list_m = [], width_m = 2, height_m = 1, rows_m = [[10, 6], [9, 5]],
                    destX = 5, destY = 0\<rparr> < 5 \<and>
   solveMaze 5 \<lparr>list_m = [], width_m = 2, height_m = 1, rows_m = [[10, 6], [9, 5]],
                destX = 5, destY = 0\<rparr> 0 1 EMPTY \<noteq> None \<and>
   solveMaze 5 \<lparr>list_m = [], width_m = 2, height_m = 1, rows_m = [[10, 6], [9, 5]],
                destX = 5, destY = 0\<rparr> 0 1 EMPTY =
     Some (Inr (False,
       \<lparr>list_m = [], width_m = 2, height_m = 1, rows_m = [[42, 38], [41, 37]],
        destX = 5, destY = 0\<rparr>,
       [(0, 1), (0, 0), (1, 0), (1, 1)])) \<and>
   distinct [(0, 1), (0, 0), (1, 0), (1 :: 32 word, 1 :: 32 word)]"
proof -
  let ?m = "\<lparr>list_m = [], width_m = 2, height_m = 1, rows_m = [[10, 6], [9, 5]],
             destX = 5, destY = 0\<rparr>"
  let ?m' = "\<lparr>list_m = [], width_m = 2, height_m = 1, rows_m = [[42, 38], [41, 37]],
             destX = 5, destY = 0\<rparr>"
  let ?t = "[(0, 1), (0, 0), (1, 0), (1 :: 32 word, 1 :: 32 word)]"
  have u: "uncheckedCells ?m < 5" by code_simp
  have r: "solveMaze 5 ?m 0 1 EMPTY = Some (Inr (False, ?m', ?t))"
    by (simp add: eval_solve cong: tryDir_cong)
  have "solveMaze 5 ?m 0 1 EMPTY \<noteq> None"
    using solveMaze_terminates [of ?m 5 0 1 EMPTY] u by blast
  moreover have "distinct ?t"
    using solveMaze_terminates [of ?m 5 0 1 EMPTY False ?m' ?t] r by blast
  ultimately show ?thesis using u r by blast
qed

subsection \<open>The order of the search\<close>

lemma tryDir_chain_stuck:
  assumes "r = None \<or> (\<exists>e. r = Some (Inl e)) \<or> (\<exists>m t. r = Some (Inr (True, m, t)))"
  shows "foldl (\<lambda>r d. tryDir (p d) (c d) r) r ds = r"
  using assms by (induction ds) (auto simp add: tryDir_simps)

lemma tryDir_chain:
  "foldl (\<lambda>r d. tryDir (from \<noteq> flagOf (reverseOf d) \<and> cell AND flagOf d \<noteq> 0)
            (\<lambda>m'. search m' (fst (neighbour x y d)) (snd (neighbour x y d)) (flagOf d)) r)
     (Some (Inr (False, m, entered))) ds =
   tryInOrder_spec search cell from x y ds m entered"
proof (induction ds arbitrary: m entered)
  case Nil
  then show ?case by simp
next
  case (Cons d ds)
  let ?p = "\<lambda>d. from \<noteq> flagOf (reverseOf d) \<and> cell AND flagOf d \<noteq> 0"
  let ?c = "\<lambda>d m'. search m' (fst (neighbour x y d)) (snd (neighbour x y d)) (flagOf d)"
  let ?f = "\<lambda>r d. tryDir (?p d) (?c d) r"
  have unfold: "foldl ?f (Some (Inr (False, m, entered))) (d # ds) =
      foldl ?f (tryDir (?p d) (?c d) (Some (Inr (False, m, entered)))) ds"
    by simp
  show ?case
  proof (cases "?p d")
    case False
    then have "tryDir (?p d) (?c d) (Some (Inr (False, m, entered))) = Some (Inr (False, m, entered))"
      by (auto simp add: tryDir_def)
    then have "foldl ?f (Some (Inr (False, m, entered))) (d # ds) =
        tryInOrder_spec search cell from x y ds m entered"
      unfolding unfold using Cons.IH [of m entered] by simp
    moreover have "tryInOrder_spec search cell from x y (d # ds) m entered =
        tryInOrder_spec search cell from x y ds m entered"
      using False by auto
    ultimately show ?thesis by simp
  next
    case True
    then have spec: "tryInOrder_spec search cell from x y (d # ds) m entered =
        (case ?c d m of None \<Rightarrow> None | Some (Inl e) \<Rightarrow> Some (Inl e)
         | Some (Inr (found, m', entered')) \<Rightarrow>
             if found then Some (Inr (True, m', entered @ entered'))
             else tryInOrder_spec search cell from x y ds m' (entered @ entered'))"
      by simp
    have one: "tryDir (?p d) (?c d) (Some (Inr (False, m, entered))) =
        (case ?c d m of None \<Rightarrow> None | Some (Inl e) \<Rightarrow> Some (Inl e)
         | Some (Inr (f', m', t')) \<Rightarrow> Some (Inr (f', m', entered @ t')))"
      using True by (simp add: tryDir_def)
    show ?thesis
    proof (cases "?c d m")
      case None
      have "foldl ?f None ds = None" by (rule tryDir_chain_stuck) simp
      then show ?thesis unfolding unfold one spec None by simp
    next
      case (Some r)
      show ?thesis
      proof (cases r)
        case (Inl e)
        have "foldl ?f (Some (Inl e)) ds = Some (Inl e)" by (rule tryDir_chain_stuck) simp
        then show ?thesis unfolding unfold one spec Some Inl by simp
      next
        case (Inr v)
        obtain f m' t where v: "v = (f, m', t)" by (cases v)
        show ?thesis
        proof (cases f)
          case True
          have "foldl ?f (Some (Inr (True, m', entered @ t))) ds = Some (Inr (True, m', entered @ t))"
            by (rule tryDir_chain_stuck) simp
          then show ?thesis unfolding unfold one spec Some Inr v using True by simp
        next
          case False
          have "foldl ?f (Some (Inr (False, m', entered @ t))) ds =
              tryInOrder_spec search cell from x y ds m' (entered @ t)"
            by (rule Cons.IH)
          then show ?thesis unfolding unfold one spec Some Inr v using False by simp
        qed
      qed
    qed
  qed
qed

lemma markIfFound_case:
  "markIfFound x y r =
     (case r of None \<Rightarrow> None
      | Some (Inl e) \<Rightarrow> Some (Inl e)
      | Some (Inr (found, m', entered)) \<Rightarrow>
          if found then
            (case solutionCell m' x y of Inl e \<Rightarrow> Some (Inl e)
             | Inr m'' \<Rightarrow> Some (Inr (True, m'', entered)))
          else Some (Inr (False, m', entered)))"
  by (auto simp add: markIfFound_def split: option.splits sum.splits)

lemma solveMaze_spec:
  assumes "cellAt m x y = Some cell" and "cell AND CHECKED = 0"
  shows "solveMaze (Suc fuel) m x y from =
         searchCell_spec (solveMaze fuel) (setChecked m x y) cell x y from"
proof -
  let ?m1 = "setChecked m x y"
  let ?p = "\<lambda>d. from \<noteq> flagOf (reverseOf d) \<and> cell AND flagOf d \<noteq> 0"
  let ?c = "\<lambda>d m'. solveMaze fuel m' (fst (neighbour x y d)) (snd (neighbour x y d)) (flagOf d)"
  let ?f = "\<lambda>r d. tryDir (?p d) (?c d) r"
  let ?r0 = "Some (Inr (False, ?m1, [(x, y)])) :: result"
  let ?r4 = "tryDir (from \<noteq> LEFT \<and> cell AND RIGHT \<noteq> 0) (\<lambda>m'. solveMaze fuel m' (x + 1) y RIGHT)
          (tryDir (from \<noteq> UP \<and> cell AND DOWN \<noteq> 0) (\<lambda>m'. solveMaze fuel m' x (y + 1) DOWN)
            (tryDir (from \<noteq> DOWN \<and> cell AND UP \<noteq> 0) (\<lambda>m'. solveMaze fuel m' x (y - 1) UP)
              (tryDir (from \<noteq> RIGHT \<and> cell AND LEFT \<noteq> 0) (\<lambda>m'. solveMaze fuel m' (x - 1) y LEFT)
                ?r0)))"
  show ?thesis
  proof (cases "x = destX ?m1 \<and> y = destY ?m1")
    case True
    then show ?thesis using assms by (simp add: searchCell_spec_def Let_def)
  next
    case False
    have chain: "foldl ?f ?r0 [GoLeft, GoUp, GoDown, GoRight] =
        tryInOrder_spec (solveMaze fuel) cell from x y [GoLeft, GoUp, GoDown, GoRight] ?m1 [(x, y)]"
      by (rule tryDir_chain)
    have fold4: "foldl ?f ?r0 [GoLeft, GoUp, GoDown, GoRight] = ?r4"
      by (simp add: flagOf_def reverseOf_def neighbour_def)
    have spec: "searchCell_spec (solveMaze fuel) ?m1 cell x y from =
        markIfFound x y
          (tryInOrder_spec (solveMaze fuel) cell from x y [GoLeft, GoUp, GoDown, GoRight] ?m1 [(x, y)])"
      using False
      by (simp only: searchCell_spec_def markIfFound_case if_False)
    have code: "solveMaze (Suc fuel) m x y from = markIfFound x y ?r4"
      using assms False by (auto simp add: Let_def)
    show ?thesis
      unfolding code spec chain [symmetric] fold4 ..
  qed
qed

lemma setChar_at: "setChar s i ch ! i = ch \<and> i < length (setChar s i ch)"
  by (simp add: setChar_def nth_append)

lemma setChar_other: "j < length s \<Longrightarrow> j \<noteq> i \<Longrightarrow> setChar s i ch ! j = s ! j"
  by (simp add: setChar_def nth_append)

lemma solutionCell_marked:
  assumes "solutionCell m x y = Inr m'"
  shows "marked m' x y"
proof -
  let ?ly = "unat y * 2 + 1"
  let ?lx = "unat x * 3 + BUFFER + 1"
  let ?l1 = "setChar (list_m m ! ?ly) ?lx PATHMARKER"
  let ?l2 = "setChar ?l1 (?lx + 1) PATHMARKER"
  have ly: "?ly < length (list_m m)" and m': "list_m m' = (list_m m)[?ly := ?l2]"
    using assms by (auto simp add: solutionCell_def Let_def split: if_splits)
  have line: "list_m m' ! ?ly = ?l2" using ly m' by simp
  have a: "?l2 ! (?lx + 1) = PATHMARKER" "?lx + 1 < length ?l2"
    using setChar_at [of ?l1 "?lx + 1" PATHMARKER] by simp_all
  have "?lx < length ?l1" "?l1 ! ?lx = PATHMARKER"
    using setChar_at [of "list_m m ! ?ly" ?lx PATHMARKER] by simp_all
  then have b: "?l2 ! ?lx = PATHMARKER"
    using setChar_other [of ?lx ?l1 "?lx + 1" PATHMARKER] by simp
  have len: "?ly < length (list_m m')" using ly m' by simp
  show ?thesis
    unfolding marked_def using len a b line by (simp add: add.assoc)
qed

lemma solveMaze_found:
  assumes "solveMaze n m x y from = Some (Inr (True, m', entered))"
  shows "\<exists>m0. solutionCell m0 x y = Inr m'"
proof (cases n)
  case 0
  with assms show ?thesis by simp
next
  case (Suc k)
  from assms Suc obtain cell where cell: "cellAt m x y = Some cell"
    by (cases "cellAt m x y") simp_all
  have c0: "cell AND CHECKED = 0"
    using assms Suc cell by (auto split: if_splits)
  have "searchCell_spec (solveMaze k) (setChecked m x y) cell x y from = Some (Inr (True, m', entered))"
    using assms Suc solveMaze_spec [OF cell c0, of k "from"] by simp
  then show ?thesis
    unfolding searchCell_spec_def
    by (auto split: if_splits option.splits sum.splits)
qed

lemma solveMaze_dest:
  assumes "cellAt m x y = Some cell" and "cell AND CHECKED = 0" and "x = destX m" and "y = destY m"
  shows "solveMaze (Suc fuel) m x y from =
     (case solutionCell (setChecked m x y) x y of Inl e \<Rightarrow> Some (Inl e)
      | Inr m' \<Rightarrow> Some (Inr (True, m', [(x, y)])))"
  using assms by (simp add: Let_def rows_setChecked cong: sum.case_cong)

text \<open>
  Claim C8: for a cell that is in the grid and not yet flagged, one call of
  \<open>solveMaze\<close> is the step \<open>searchCell_spec\<close> of the specification on the maze with the
  cell flagged: at the destination it marks the cell and returns success; anywhere
  else it tries LEFT, UP, DOWN, RIGHT in this order, leaves out the reverse of \<open>from\<close>
  (and the directions without a passage), stops at the first call that succeeds, and
  then marks the cell before it returns success. At the destination the result is the
  one a call with fuel for no further call gives, so no neighbour is explored. Whenever
  a call returns success, the cell it was called on is marked in the text.
\<close>

theorem solveMaze_order:
  "(cellAt m x y = Some cell \<and> cell AND CHECKED = 0 \<longrightarrow>
      solveMaze (Suc fuel) m x y from =
        searchCell_spec (solveMaze fuel) (setChecked m x y) cell x y from) \<and>
   (cellAt m x y = Some cell \<and> cell AND CHECKED = 0 \<and> x = destX m \<and> y = destY m \<longrightarrow>
      solveMaze (Suc fuel) m x y from = solveMaze (Suc 0) m x y from \<and>
      solveMaze (Suc 0) m x y from \<noteq> None) \<and>
   (solveMaze fuel m x y from = Some (Inr (True, m', entered)) \<longrightarrow> marked m' x y)"
proof (intro conjI impI)
  assume "cellAt m x y = Some cell \<and> cell AND CHECKED = 0"
  then show "solveMaze (Suc fuel) m x y from =
        searchCell_spec (solveMaze fuel) (setChecked m x y) cell x y from"
    using solveMaze_spec by blast
next
  assume a: "cellAt m x y = Some cell \<and> cell AND CHECKED = 0 \<and> x = destX m \<and> y = destY m"
  then have d: "\<And>k. solveMaze (Suc k) m x y from =
     (case solutionCell (setChecked m x y) x y of Inl e \<Rightarrow> Some (Inl e)
      | Inr m' \<Rightarrow> Some (Inr (True, m', [(x, y)])))"
    using solveMaze_dest [of m x y cell] by blast
  show "solveMaze (Suc fuel) m x y from = solveMaze (Suc 0) m x y from"
    by (simp only: d)
  show "solveMaze (Suc 0) m x y from \<noteq> None"
    by (simp only: d) (simp split: sum.splits)
next
  assume "solveMaze fuel m x y from = Some (Inr (True, m', entered))"
  from solveMaze_found [OF this] obtain m0 where "solutionCell m0 x y = Inr m'" by blast
  then show "marked m' x y" by (rule solutionCell_marked)
qed

theorem solveMaze_order_witness:
  "cellAt \<lparr>list_m = [''      ______'', ''     |     |'', ''     |__|__|''], width_m = 2,
            height_m = 0, rows_m = [[8, 4]], destX = 1, destY = 0\<rparr> 0 0 = Some 8 \<and>
   (8 :: 16 word) AND CHECKED = 0 \<and>
   solveMaze (Suc 2) \<lparr>list_m = [''      ______'', ''     |     |'', ''     |__|__|''], width_m = 2,
            height_m = 0, rows_m = [[8, 4]], destX = 1, destY = 0\<rparr> 0 0 EMPTY =
     Some (Inr (True,
       \<lparr>list_m = [''      ______'', ''     |XX XX|'', ''     |__|__|''], width_m = 2,
        height_m = 0, rows_m = [[40, 36]], destX = 1, destY = 0\<rparr>, [(0, 0), (1, 0)])) \<and>
   searchCell_spec (solveMaze 2)
     (setChecked \<lparr>list_m = [''      ______'', ''     |     |'', ''     |__|__|''], width_m = 2,
            height_m = 0, rows_m = [[8, 4]], destX = 1, destY = 0\<rparr> 0 0) 8 0 0 EMPTY =
     Some (Inr (True,
       \<lparr>list_m = [''      ______'', ''     |XX XX|'', ''     |__|__|''], width_m = 2,
        height_m = 0, rows_m = [[40, 36]], destX = 1, destY = 0\<rparr>, [(0, 0), (1, 0)])) \<and>
   marked \<lparr>list_m = [''      ______'', ''     |XX XX|'', ''     |__|__|''], width_m = 2,
        height_m = 0, rows_m = [[40, 36]], destX = 1, destY = 0\<rparr> 0 0"
proof -
  let ?m = "\<lparr>list_m = [''      ______'', ''     |     |'', ''     |__|__|''], width_m = 2,
            height_m = 0, rows_m = [[8, 4]], destX = 1, destY = 0\<rparr>"
  let ?m' = "\<lparr>list_m = [''      ______'', ''     |XX XX|'', ''     |__|__|''], width_m = 2,
        height_m = 0, rows_m = [[40, 36]], destX = 1, destY = 0\<rparr>"
  have c: "cellAt ?m 0 0 = Some 8" by (simp add: cellAt_def)
  have u: "(8 :: 16 word) AND CHECKED = 0" by (simp add: CHECKED_def)
  have e: "solveMaze (Suc 2) ?m 0 0 EMPTY = Some (Inr (True, ?m', [(0, 0), (1, 0)]))"
    by (simp add: eval_solve cong: tryDir_cong del: solveMaze.simps)
  have "solveMaze (Suc 2) ?m 0 0 EMPTY = searchCell_spec (solveMaze 2) (setChecked ?m 0 0) 8 0 0 EMPTY"
    using solveMaze_order [of ?m 0 0 8 2 EMPTY] c u by blast
  then have s: "searchCell_spec (solveMaze 2) (setChecked ?m 0 0) 8 0 0 EMPTY =
      Some (Inr (True, ?m', [(0, 0), (1, 0)]))"
    using e by simp
  have "marked ?m' 0 0"
    using solveMaze_order [of ?m 0 0 8 "Suc 2" EMPTY ?m' "[(0, 0), (1, 0)]"] e by blast
  then show ?thesis using c u e s by blast
qed

section \<open>Solver: the program\<close>

lemma main_total: "main input \<noteq> None"
proof (cases "read input \<lparr>list_m = [], width_m = 0, height_m = 0, rows_m = [], destX = 0, destY = 0\<rparr>")
  case (Inl e)
  then show ?thesis by (simp add: main_def)
next
  case (Inr m0)
  let ?m = "m0\<lparr>destX := width_m m0 - 1, destY := 0\<rparr>"
  have "solveMaze (Suc (uncheckedCells ?m)) ?m 0 (height_m ?m) EMPTY \<noteq> None"
    by (rule solveMaze_total) simp
  then obtain r where r: "solveMaze (Suc (uncheckedCells ?m)) ?m 0 (height_m ?m) EMPTY = Some r"
    by blast
  show ?thesis
    unfolding main_def Inr using r
    by (cases r) (simp_all add: Let_def split: prod.splits del: solveMaze.simps)
qed

text \<open>
  The value \<open>main\<close> returns is the result of the search: in every run that ends
  without an access outside a container, the status is 0 exactly when the diagnostic
  is printed, and 1 exactly when \<open>write\<close> is called.
\<close>

lemma main_status:
  assumes "main input = Some (Inr r)"
  shows "(exit_code r = 0 \<and> stderr r = [''No path found through maze.''] \<and> written r = []) \<or>
         (exit_code r = 1 \<and> stderr r = [])"
  using assms
  by (auto simp add: main_def Let_def split: sum.splits option.splits if_splits prod.splits
      simp del: solveMaze.simps)

text \<open>
  Claim C1 says that the program exits with a non-zero status when no path exists and
  with 0 when the maze is solved, and so does the comment above \<open>main\<close> in the source
  (\<open>@return 1 if there is no path found\<close>). \<open>main\<close> returns \<open>isSolvable\<close>, the result
  of the search: on a maze of two cells with a wall between them it prints the
  diagnostic to the error stream and returns 0; on the same maze without the wall it
  prints nothing to the error stream and returns 1.
\<close>

theorem main_exit_status:
  "(\<exists>r. main [''      ______'', ''     |  |  |'', ''     |__|__|''] = Some (Inr r) \<and>
        stderr r = [''No path found through maze.''] \<and> exit_code r = 0) \<and>
   (\<exists>r. main [''      ______'', ''     |     |'', ''     |__|__|''] = Some (Inr r) \<and>
        stderr r = [] \<and> exit_code r = 1)"
proof -
  let ?m0 = "\<lparr>list_m = [], width_m = 0, height_m = 0, rows_m = [], destX = 0, destY = 0\<rparr>"
  let ?closed = "[''      ______'', ''     |  |  |'', ''     |__|__|'']"
  let ?opened = "[''      ______'', ''     |     |'', ''     |__|__|'']"
  have r1: "read ?closed ?m0 =
      Inr \<lparr>list_m = ?closed, width_m = 2, height_m = 0, rows_m = [[0, 0]], destX = 0, destY = 0\<rparr>"
    by code_simp
  have u1: "uncheckedCells \<lparr>list_m = ?closed, width_m = 2, height_m = 0, rows_m = [[0, 0]],
      destX = 1, destY = 0\<rparr> = 2"
    by code_simp
  have s1: "solveMaze 3 \<lparr>list_m = ?closed, width_m = 2, height_m = 0, rows_m = [[0, 0]],
      destX = 1, destY = 0\<rparr> 0 0 EMPTY =
      Some (Inr (False, \<lparr>list_m = ?closed, width_m = 2, height_m = 0, rows_m = [[32, 0]],
      destX = 1, destY = 0\<rparr>, [(0, 0)]))"
    by (simp add: eval_solve cong: tryDir_cong)
  have r2: "read ?opened ?m0 =
      Inr \<lparr>list_m = ?opened, width_m = 2, height_m = 0, rows_m = [[8, 4]], destX = 0, destY = 0\<rparr>"
    by code_simp
  have u2: "uncheckedCells \<lparr>list_m = ?opened, width_m = 2, height_m = 0, rows_m = [[8, 4]],
      destX = 1, destY = 0\<rparr> = 2"
    by code_simp
  have s2: "solveMaze 3 \<lparr>list_m = ?opened, width_m = 2, height_m = 0, rows_m = [[8, 4]],
      destX = 1, destY = 0\<rparr> 0 0 EMPTY =
      Some (Inr (True, \<lparr>list_m = [''      ______'', ''     |XX XX|'', ''     |__|__|''],
      width_m = 2, height_m = 0, rows_m = [[40, 36]], destX = 1, destY = 0\<rparr>, [(0, 0), (1, 0)]))"
    by (simp add: eval_solve cong: tryDir_cong)
  have "main ?closed =
     Some (Inr \<lparr>written = [], stderr = [''No path found through maze.''], exit_code = 0\<rparr>)"
    by (simp add: main_def Let_def r1 u1 s1 del: solveMaze.simps)
  then have a: "\<exists>r. main ?closed = Some (Inr r) \<and>
      stderr r = [''No path found through maze.''] \<and> exit_code r = 0"
    by simp
  have "main ?opened =
     Some (Inr \<lparr>written = [''      ______'', ''     |XX XX|'', ''     |__|__|''], stderr = [],
                exit_code = 1\<rparr>)"
    by (simp add: main_def Let_def r2 u2 s2 del: solveMaze.simps)
  then have b: "\<exists>r. main ?opened = Some (Inr r) \<and> stderr r = [] \<and> exit_code r = 1"
    by simp
  from a b show ?thesis by (rule conjI)
qed

end
